theory Spec2Isabelle
  imports Main "HOL-Library.Word"
begin

section \<open>RpcTracker: the sliding window of RPC ids\<close>

text \<open>
  \<^verbatim>\<open>RpcTracker.cc\<close> keeps three members: \<^verbatim>\<open>uint64_t firstMissing\<close>,
  \<^verbatim>\<open>uint64_t nextRpcId\<close> and the array \<^verbatim>\<open>bool rpcs[windowSize]\<close>.
  The class declaration (\<^verbatim>\<open>RpcTracker.h\<close>) is not part of the sources at hand, so
  the constant \<^verbatim>\<open>windowSize\<close> is a parameter \<open>W\<close> of every operation below.
  The counters are 64-bit words: \<open>+\<close> and \<open>-\<close> wrap as \<^verbatim>\<open>uint64_t\<close> does.
\<close>

type_synonym rpcid = "64 word"

record tracker =
  firstMissing :: rpcid
  nextRpcId :: rpcid
  rpcs :: "bool list"

datatype abort = AssertionFailed

text \<open>\<^verbatim>\<open>rpcId % windowSize\<close>: the index of an id in the bitmap.\<close>

definition slot :: "nat \<Rightarrow> rpcid \<Rightarrow> nat" where
  "slot W i = unat i mod W"

text \<open>
  The loop of \<^verbatim>\<open>rpcFinished\<close>:
  \<^verbatim>\<open>while (rpcs[firstMissing % windowSize] && firstMissing < nextRpcId) firstMissing++;\<close>
\<close>

function advance :: "nat \<Rightarrow> tracker \<Rightarrow> tracker" where
  "advance W s =
     (if rpcs s ! slot W (firstMissing s) \<and> firstMissing s < nextRpcId s
      then advance W (s\<lparr>firstMissing := firstMissing s + 1\<rparr>)
      else s)"
  by pat_completeness auto
termination
proof (relation "measure (\<lambda>(W, s). unat (nextRpcId s) - unat (firstMissing s))")
  show "wf (measure (\<lambda>(W, s). unat (nextRpcId s) - unat (firstMissing s)))"
    by simp
next
  fix W :: nat and s :: tracker
  assume "rpcs s ! slot W (firstMissing s) \<and> firstMissing s < nextRpcId s"
  then have lt: "firstMissing s < nextRpcId s" by simp
  then have "unat (firstMissing s + 1) = unat (firstMissing s) + 1"
    by unat_arith
  moreover from lt have "unat (firstMissing s) < unat (nextRpcId s)"
    by (simp add: word_less_nat_alt)
  ultimately show "((W, s\<lparr>firstMissing := firstMissing s + 1\<rparr>), (W, s))
      \<in> measure (\<lambda>(W, s). unat (nextRpcId s) - unat (firstMissing s))"
    by simp
qed

declare advance.simps [simp del]

text \<open>
  \<^verbatim>\<open>rpcFinished\<close>: the \<^verbatim>\<open>assert\<close> aborts the process when the slot is already
  marked finished; otherwise the slot is marked and, when the id is the oldest missing
  one, the watermark moves.
\<close>

definition rpcFinished :: "nat \<Rightarrow> tracker \<Rightarrow> rpcid \<Rightarrow> abort + tracker" where
  "rpcFinished W s rpcId =
     (if rpcs s ! slot W rpcId then Inl AssertionFailed
      else
        let s1 = s\<lparr>rpcs := (rpcs s)[slot W rpcId := True]\<rparr>
        in if firstMissing s1 = rpcId
           then Inr (advance W (s1\<lparr>firstMissing := firstMissing s1 + 1\<rparr>))
           else Inr s1)"

text \<open>\<^verbatim>\<open>newRpcId\<close> returns the id (0 when the window is full) and the new state.\<close>

definition newRpcId :: "nat \<Rightarrow> tracker \<Rightarrow> rpcid \<times> tracker" where
  "newRpcId W s =
     (if firstMissing s + of_nat W = nextRpcId s then (0, s)
      else (nextRpcId s,
            s\<lparr>rpcs := (rpcs s)[slot W (nextRpcId s) := False],
              nextRpcId := nextRpcId s + 1\<rparr>))"

definition ackId :: "tracker \<Rightarrow> rpcid" where
  "ackId s = firstMissing s - 1"

text \<open>
  Modelled from the spec: the constructor of \<^verbatim>\<open>RpcTracker\<close>, which lives in the
  header. The spec lets ids start at 1, above the sentinel 0, with nothing outstanding.
\<close>

definition init :: "nat \<Rightarrow> tracker" where
  "init W = \<lparr>firstMissing = 1, nextRpcId = 1, rpcs = replicate W False\<rparr>"

subsection \<open>Call sequences and their history\<close>

text \<open>
  To say what "pending" and "finished" mean independently of the bitmap, a run carries
  a history next to the tracker: the ids handed out by \<^verbatim>\<open>newRpcId\<close> (newest first)
  and the ids passed to \<^verbatim>\<open>rpcFinished\<close>. The history is not read by the code.
\<close>

record hist =
  issued :: "rpcid list"
  finished :: "rpcid list"

definition no_hist :: hist where
  "no_hist = \<lparr>issued = [], finished = []\<rparr>"

definition pending :: "hist \<Rightarrow> rpcid list" where
  "pending h = filter (\<lambda>i. i \<notin> set (finished h)) (issued h)"

datatype call = NewRpcId | RpcFinished rpcid

type_synonym config = "tracker \<times> hist"

fun step :: "nat \<Rightarrow> config \<Rightarrow> call \<Rightarrow> abort + config" where
  "step W (s, h) NewRpcId =
     (case newRpcId W s of
        (r, s') \<Rightarrow> Inr (s', if r = 0 then h else h\<lparr>issued := r # issued h\<rparr>))"
| "step W (s, h) (RpcFinished i) =
     (case rpcFinished W s i of
        Inl e \<Rightarrow> Inl e
      | Inr s' \<Rightarrow> Inr (s', h\<lparr>finished := i # finished h\<rparr>))"

text \<open>A call respects the contract when \<^verbatim>\<open>rpcFinished\<close> is given a pending id.\<close>

fun valid_call :: "config \<Rightarrow> call \<Rightarrow> bool" where
  "valid_call (s, h) NewRpcId = True"
| "valid_call (s, h) (RpcFinished i) = (i \<in> set (pending h))"

fun run :: "nat \<Rightarrow> config \<Rightarrow> call list \<Rightarrow> abort + config" where
  "run W c [] = Inr c"
| "run W c (x # xs) = (case step W c x of Inl e \<Rightarrow> Inl e | Inr c' \<Rightarrow> run W c' xs)"

text \<open>
  A sequence is valid when each call respects the contract in the state it is made in.
  Nothing is asked of the calls after an abort: the process is gone.
\<close>

fun valid :: "nat \<Rightarrow> config \<Rightarrow> call list \<Rightarrow> bool" where
  "valid W c [] = True"
| "valid W c (x # xs) =
     (valid_call c x \<and> (case step W c x of Inl e \<Rightarrow> True | Inr c' \<Rightarrow> valid W c' xs))"

subsection \<open>The window invariant\<close>

definition ids_below :: "rpcid \<Rightarrow> rpcid list" where
  "ids_below n = rev (map of_nat [1..<unat n])"

text \<open>
  Everything but the statement that \<open>firstMissing\<close> itself is unfinished; this part
  also holds in the middle of the loop of \<^verbatim>\<open>rpcFinished\<close>.
\<close>

definition window_base :: "nat \<Rightarrow> config \<Rightarrow> bool" where
  "window_base W c =
     (let s = fst c; h = snd c in
      0 < W \<and> W < 2 ^ 64 \<and> length (rpcs s) = W \<and>
      1 \<le> firstMissing s \<and> firstMissing s \<le> nextRpcId s \<and>
      unat (nextRpcId s) - unat (firstMissing s) \<le> W \<and>
      issued h = ids_below (nextRpcId s) \<and>
      set (finished h) \<subseteq> set (issued h) \<and>
      (\<forall>i \<in> set (issued h). i < firstMissing s \<longrightarrow> i \<in> set (finished h)) \<and>
      (\<forall>i \<in> set (issued h). unat (nextRpcId s) \<le> unat i + W \<longrightarrow>
         (rpcs s ! slot W i \<longleftrightarrow> i \<in> set (finished h))))"

definition window_inv :: "nat \<Rightarrow> config \<Rightarrow> bool" where
  "window_inv W c =
     (window_base W c \<and>
      (firstMissing (fst c) < nextRpcId (fst c) \<longrightarrow>
         firstMissing (fst c) \<notin> set (finished (snd c))))"

text \<open>The watermark reported after a call sequence on a fresh tracker.\<close>

definition ack_after :: "nat \<Rightarrow> call list \<Rightarrow> abort + rpcid" where
  "ack_after W cs =
     (case run W (init W, no_hist) cs of Inl e \<Rightarrow> Inl e | Inr c \<Rightarrow> Inr (ackId (fst c)))"

section \<open>BackupClient: the RPC stubs of one backup host\<close>

text \<open>
  \<^verbatim>\<open>BackupClient.cc\<close> includes \<^verbatim>\<open>backuprpc.h\<close> and \<^verbatim>\<open>BackupClient.h\<close>, which
  are not part of the sources at hand. The length constants they define are the fields
  of the record \<open>wire\<close>, a parameter of every operation; they are \<^verbatim>\<open>sizeof\<close>
  expressions, hence natural numbers.
\<close>

type_synonym byte = "8 word"
type_synonym u32 = "32 word"
type_synonym u64 = "64 word"

record wire =
  MAX_RPC_LEN :: nat
  BACKUP_RPC_HEARTBEAT_REQ_LEN :: nat
  BACKUP_RPC_WRITE_REQ_LEN_WODATA :: nat
  BACKUP_RPC_COMMIT_REQ_LEN :: nat
  BACKUP_RPC_FREE_REQ_LEN :: nat
  BACKUP_RPC_GETSEGMENTLIST_REQ_LEN :: nat
  BACKUP_RPC_GETSEGMENTMETADATA_REQ_LEN :: nat
  BACKUP_RPC_RETRIEVE_REQ_LEN :: nat

text \<open>
  The type tags. The source names the seven request tags and
  \<^verbatim>\<open>BACKUP_RPC_ERROR_RESP\<close>; the other response tags are declared in the header and
  are never compared by this file.
\<close>

datatype backup_rpc_type =
    BACKUP_RPC_HEARTBEAT_REQ | BACKUP_RPC_HEARTBEAT_RESP
  | BACKUP_RPC_WRITE_REQ | BACKUP_RPC_WRITE_RESP
  | BACKUP_RPC_COMMIT_REQ | BACKUP_RPC_COMMIT_RESP
  | BACKUP_RPC_FREE_REQ | BACKUP_RPC_FREE_RESP
  | BACKUP_RPC_GETSEGMENTLIST_REQ | BACKUP_RPC_GETSEGMENTLIST_RESP
  | BACKUP_RPC_GETSEGMENTMETADATA_REQ | BACKUP_RPC_GETSEGMENTMETADATA_RESP
  | BACKUP_RPC_RETRIEVE_REQ | BACKUP_RPC_RETRIEVE_RESP
  | BACKUP_RPC_ERROR_RESP

text \<open>
  Modelled from the spec: \<^verbatim>\<open>RecoveryObjectMetadata\<close>, declared in a header; the
  spec describes a metadata response as a sequence of (objectId, version).
\<close>

type_synonym RecoveryObjectMetadata = "u64 \<times> u64"

text \<open>
  \<^verbatim>\<open>backup_rpc\<close> is a header \<^verbatim>\<open>hdr\<close> (type tag, 32-bit length) followed by a union
  of bodies. The fields a body carries are those the source reads or writes.
\<close>

datatype req_body =
    heartbeat_req
  | write_req u64 u32 u32 "byte list"
  | commit_req u64
  | free_req u64
  | getsegmentlist_req
  | getsegmentmetadata_req u64
  | retrieve_req u64

datatype resp_body =
    plain_resp
  | getsegmentlist_resp u32 "u64 list"
  | getsegmentmetadata_resp u32 "RecoveryObjectMetadata list"
  | retrieve_resp u32 "byte list"
  | error_resp string

record 'b backup_rpc =
  hdr_type :: backup_rpc_type
  hdr_len :: u32
  body :: 'b

text \<open>
  How a call of a stub ends when it does not return normally:
  a thrown \<^verbatim>\<open>BackupRPCException\<close> with its message; the failed \<^verbatim>\<open>assert\<close> of
  \<^verbatim>\<open>recvRPC\<close>; a \<^verbatim>\<open>Recv\<close> with no message to deliver, which never returns; a
  \<^verbatim>\<open>memcpy\<close> that leaves the source or destination buffer, or a string read that
  runs past the received frame (undefined behaviour in C++); a union read through a
  member the received frame does not hold (likewise).
\<close>

datatype failure =
    BackupRPCException string
  | AssertFailed
  | RecvBlocked
  | OutOfBounds
  | WrongBody

text \<open>
  The transport \<^verbatim>\<open>Net\<close>: what \<^verbatim>\<open>Send\<close> was given (frame and byte count), and the
  messages \<^verbatim>\<open>Recv\<close> will deliver, each with the length \<^verbatim>\<open>Recv\<close> returns for it.
\<close>

record Net =
  sent :: "(req_body backup_rpc \<times> nat) list"
  inbox :: "(nat \<times> resp_body backup_rpc) list"

record BackupHost =
  net :: Net

definition sendRPC :: "req_body backup_rpc \<Rightarrow> BackupHost \<Rightarrow> BackupHost" where
  "sendRPC rpc h = h\<lparr>net := (net h)\<lparr>sent := sent (net h) @ [(rpc, unat (hdr_len rpc))]\<rparr>\<rparr>"

text \<open>
  \<^verbatim>\<open>char *m = (*rpc)->error_resp.message\<close> is handed to the exception as a C string:
  the text is the characters before the first zero byte. \<open>error_resp\<close> carries the
  bytes of the message field as they lie in the frame; when they hold no zero byte the
  read runs past the frame.
\<close>

definition c_str :: "string \<Rightarrow> string option" where
  "c_str bs =
     (if CHR 0x00 \<in> set bs then Some (takeWhile (\<lambda>c. c \<noteq> CHR 0x00) bs) else None)"

text \<open>
  \<^verbatim>\<open>recvRPC\<close>: the length check is an \<^verbatim>\<open>assert\<close> (after a \<^verbatim>\<open>printf\<close>), the error
  response a \<^verbatim>\<open>throw\<close> carrying the C string at \<^verbatim>\<open>error_resp.message\<close>.
\<close>

definition recvRPC :: "BackupHost \<Rightarrow> (failure + resp_body backup_rpc) \<times> BackupHost" where
  "recvRPC h =
     (case inbox (net h) of
        [] \<Rightarrow> (Inl RecvBlocked, h)
      | (len, rpc) # rest \<Rightarrow>
          let h' = h\<lparr>net := (net h)\<lparr>inbox := rest\<rparr>\<rparr> in
          if len \<noteq> unat (hdr_len rpc) then (Inl AssertFailed, h')
          else if hdr_type rpc = BACKUP_RPC_ERROR_RESP then
            (case body rpc of
               error_resp message \<Rightarrow>
                 (case c_str message of
                    Some m \<Rightarrow> (Inl (BackupRPCException m), h')
                  | None \<Rightarrow> (Inl OutOfBounds, h'))
             | _ \<Rightarrow> (Inl WrongBody, h'))
          else (Inr rpc, h'))"

text \<open>The four stubs that ignore the body of the response.\<close>

definition call_plain ::
  "req_body backup_rpc \<Rightarrow> BackupHost \<Rightarrow> (failure + unit) \<times> BackupHost" where
  "call_plain req h =
     (case recvRPC (sendRPC req h) of
        (Inl e, h') \<Rightarrow> (Inl e, h')
      | (Inr resp, h') \<Rightarrow> (Inr (), h'))"

definition heartbeat :: "wire \<Rightarrow> BackupHost \<Rightarrow> (failure + unit) \<times> BackupHost" where
  "heartbeat K h =
     call_plain \<lparr>hdr_type = BACKUP_RPC_HEARTBEAT_REQ,
                 hdr_len = of_nat (BACKUP_RPC_HEARTBEAT_REQ_LEN K),
                 body = heartbeat_req\<rparr> h"

text \<open>
  \<^verbatim>\<open>writeSegment\<close>: \<^verbatim>\<open>req->hdr.len = BACKUP_RPC_WRITE_REQ_LEN_WODATA + len\<close> is stored
  in the 32-bit header field, and the stored value is what is compared with
  \<^verbatim>\<open>MAX_RPC_LEN\<close>. The request is built in \<^verbatim>\<open>char reqbuf[MAX_RPC_LEN]\<close>; the
  \<^verbatim>\<open>memcpy\<close> of \<open>len\<close> bytes lands behind the fixed part of the request.
\<close>

definition writeSegment ::
  "wire \<Rightarrow> u64 \<Rightarrow> u32 \<Rightarrow> byte list \<Rightarrow> u32 \<Rightarrow> BackupHost \<Rightarrow> (failure + unit) \<times> BackupHost" where
  "writeSegment K segNum offset dat len h =
     (let hl = (of_nat (BACKUP_RPC_WRITE_REQ_LEN_WODATA K + unat len) :: u32) in
      if unat hl > MAX_RPC_LEN K
      then (Inl (BackupRPCException ''Write RPC would be too long''), h)
      else if MAX_RPC_LEN K < BACKUP_RPC_WRITE_REQ_LEN_WODATA K + unat len
              \<or> length dat < unat len
      then (Inl OutOfBounds, h)
      else call_plain \<lparr>hdr_type = BACKUP_RPC_WRITE_REQ, hdr_len = hl,
                       body = write_req segNum offset len (take (unat len) dat)\<rparr> h)"

definition commitSegment :: "wire \<Rightarrow> u64 \<Rightarrow> BackupHost \<Rightarrow> (failure + unit) \<times> BackupHost" where
  "commitSegment K segNum h =
     call_plain \<lparr>hdr_type = BACKUP_RPC_COMMIT_REQ,
                 hdr_len = of_nat (BACKUP_RPC_COMMIT_REQ_LEN K),
                 body = commit_req segNum\<rparr> h"

definition freeSegment :: "wire \<Rightarrow> u64 \<Rightarrow> BackupHost \<Rightarrow> (failure + unit) \<times> BackupHost" where
  "freeSegment K segNum h =
     call_plain \<lparr>hdr_type = BACKUP_RPC_FREE_REQ,
                 hdr_len = of_nat (BACKUP_RPC_FREE_REQ_LEN K),
                 body = free_req segNum\<rparr> h"

text \<open>\<^verbatim>\<open>memcpy(dst, src, n)\<close> on buffers of elements, for \<open>n\<close> within both.\<close>

definition memcpy :: "'a list \<Rightarrow> 'a list \<Rightarrow> nat \<Rightarrow> 'a list" where
  "memcpy dst src n = take n src @ drop n dst"

text \<open>
  The stubs with an output buffer return the outcome, the caller's buffer and the host.
  The length of the list standing for the caller's buffer is its allocated size.
\<close>

definition getSegmentList ::
  "wire \<Rightarrow> u64 list \<Rightarrow> u32 \<Rightarrow> BackupHost \<Rightarrow> (failure + u32) \<times> u64 list \<times> BackupHost" where
  "getSegmentList K list maxSize h =
     (case recvRPC (sendRPC \<lparr>hdr_type = BACKUP_RPC_GETSEGMENTLIST_REQ,
                             hdr_len = of_nat (BACKUP_RPC_GETSEGMENTLIST_REQ_LEN K),
                             body = getsegmentlist_req\<rparr> h) of
        (Inl e, h') \<Rightarrow> (Inl e, list, h')
      | (Inr resp, h') \<Rightarrow>
          (case body resp of
             getsegmentlist_resp tmpCount tmpList \<Rightarrow>
               if maxSize < tmpCount
               then (Inl (BackupRPCException
                            ''Provided a segment id buffer that was too small''), list, h')
               else if length tmpList < unat tmpCount \<or> length list < unat tmpCount
               then (Inl OutOfBounds, list, h')
               else (Inr tmpCount, memcpy list tmpList (unat tmpCount), h')
           | _ \<Rightarrow> (Inl WrongBody, list, h')))"

definition getSegmentMetadata ::
  "wire \<Rightarrow> u64 \<Rightarrow> RecoveryObjectMetadata list \<Rightarrow> u32 \<Rightarrow> BackupHost
     \<Rightarrow> (failure + u32) \<times> RecoveryObjectMetadata list \<times> BackupHost" where
  "getSegmentMetadata K segNum list maxSize h =
     (case recvRPC (sendRPC \<lparr>hdr_type = BACKUP_RPC_GETSEGMENTMETADATA_REQ,
                             hdr_len = of_nat (BACKUP_RPC_GETSEGMENTMETADATA_REQ_LEN K),
                             body = getsegmentmetadata_req segNum\<rparr> h) of
        (Inl e, h') \<Rightarrow> (Inl e, list, h')
      | (Inr resp, h') \<Rightarrow>
          (case body resp of
             getsegmentmetadata_resp tmpCount tmpList \<Rightarrow>
               if maxSize < tmpCount
               then (Inl (BackupRPCException
                            ''Provided a segment id buffer that was too small''), list, h')
               else if length tmpList < unat tmpCount \<or> length list < unat tmpCount
               then (Inl OutOfBounds, list, h')
               else (Inr tmpCount, memcpy list tmpList (unat tmpCount), h')
           | _ \<Rightarrow> (Inl WrongBody, list, h')))"

definition retrieveSegment ::
  "wire \<Rightarrow> u64 \<Rightarrow> byte list \<Rightarrow> BackupHost \<Rightarrow> (failure + unit) \<times> byte list \<times> BackupHost" where
  "retrieveSegment K segNum buf h =
     (case recvRPC (sendRPC \<lparr>hdr_type = BACKUP_RPC_RETRIEVE_REQ,
                             hdr_len = of_nat (BACKUP_RPC_RETRIEVE_REQ_LEN K),
                             body = retrieve_req segNum\<rparr> h) of
        (Inl e, h') \<Rightarrow> (Inl e, buf, h')
      | (Inr resp, h') \<Rightarrow>
          (case body resp of
             retrieve_resp data_len dat \<Rightarrow>
               if length dat < unat data_len \<or> length buf < unat data_len
               then (Inl OutOfBounds, buf, h')
               else (Inr (), memcpy buf dat (unat data_len), h')
           | _ \<Rightarrow> (Inl WrongBody, buf, h')))"

subsection \<open>MultiBackupClient\<close>

record MultiBackupClient =
  host :: "BackupHost option"

text \<open>The constructor: \<^verbatim>\<open>host(0)\<close>.\<close>

definition MultiBackupClient_new :: MultiBackupClient where
  "MultiBackupClient_new = \<lparr>host = None\<rparr>"

definition addHost :: "Net \<Rightarrow> MultiBackupClient \<Rightarrow> (failure + unit) \<times> MultiBackupClient" where
  "addHost n c =
     (case host c of
        Some h \<Rightarrow> (Inl (BackupRPCException ''Only one backup host currently supported''), c)
      | None \<Rightarrow> (Inr (), c\<lparr>host := Some \<lparr>net = n\<rparr>\<rparr>))"

text \<open>The forwarding operations: to the host when there is one, nothing otherwise.\<close>

definition forward ::
  "(BackupHost \<Rightarrow> (failure + unit) \<times> BackupHost) \<Rightarrow> MultiBackupClient
     \<Rightarrow> (failure + unit) \<times> MultiBackupClient" where
  "forward f c =
     (case host c of
        None \<Rightarrow> (Inr (), c)
      | Some h \<Rightarrow> (case f h of (r, h') \<Rightarrow> (r, c\<lparr>host := Some h'\<rparr>)))"

definition MultiBackupClient_heartbeat ::
  "wire \<Rightarrow> MultiBackupClient \<Rightarrow> (failure + unit) \<times> MultiBackupClient" where
  "MultiBackupClient_heartbeat K c = forward (heartbeat K) c"

definition MultiBackupClient_writeSegment ::
  "wire \<Rightarrow> u64 \<Rightarrow> u32 \<Rightarrow> byte list \<Rightarrow> u32 \<Rightarrow> MultiBackupClient
     \<Rightarrow> (failure + unit) \<times> MultiBackupClient" where
  "MultiBackupClient_writeSegment K segNum offset dat len c =
     forward (writeSegment K segNum offset dat len) c"

definition MultiBackupClient_commitSegment ::
  "wire \<Rightarrow> u64 \<Rightarrow> MultiBackupClient \<Rightarrow> (failure + unit) \<times> MultiBackupClient" where
  "MultiBackupClient_commitSegment K segNum c = forward (commitSegment K segNum) c"

definition MultiBackupClient_freeSegment ::
  "wire \<Rightarrow> u64 \<Rightarrow> MultiBackupClient \<Rightarrow> (failure + unit) \<times> MultiBackupClient" where
  "MultiBackupClient_freeSegment K segNum c = forward (freeSegment K segNum) c"

definition MultiBackupClient_getSegmentList ::
  "wire \<Rightarrow> u64 list \<Rightarrow> u32 \<Rightarrow> MultiBackupClient
     \<Rightarrow> (failure + u32) \<times> u64 list \<times> MultiBackupClient" where
  "MultiBackupClient_getSegmentList K list maxSize c =
     (case host c of
        None \<Rightarrow> (Inr 0, list, c)
      | Some h \<Rightarrow>
          (case getSegmentList K list maxSize h of
             (r, list', h') \<Rightarrow> (r, list', c\<lparr>host := Some h'\<rparr>)))"

definition MultiBackupClient_getSegmentMetadata ::
  "wire \<Rightarrow> u64 \<Rightarrow> RecoveryObjectMetadata list \<Rightarrow> u32 \<Rightarrow> MultiBackupClient
     \<Rightarrow> (failure + u32) \<times> RecoveryObjectMetadata list \<times> MultiBackupClient" where
  "MultiBackupClient_getSegmentMetadata K segNum list maxSize c =
     (case host c of
        None \<Rightarrow> (Inr 0, list, c)
      | Some h \<Rightarrow>
          (case getSegmentMetadata K segNum list maxSize h of
             (r, list', h') \<Rightarrow> (r, list', c\<lparr>host := Some h'\<rparr>)))"

definition MultiBackupClient_retrieveSegment ::
  "wire \<Rightarrow> u64 \<Rightarrow> byte list \<Rightarrow> MultiBackupClient
     \<Rightarrow> (failure + unit) \<times> byte list \<times> MultiBackupClient" where
  "MultiBackupClient_retrieveSegment K segNum buf c =
     (case host c of
        None \<Rightarrow> (Inr (), buf, c)
      | Some h \<Rightarrow>
          (case retrieveSegment K segNum buf h of
             (r, buf', h') \<Rightarrow> (r, buf', c\<lparr>host := Some h'\<rparr>)))"

subsection \<open>Sample values\<close>

text \<open>
  Values for the constants and a host with one response waiting, used to instantiate
  the theorems below. The real constants are those of \<^verbatim>\<open>backuprpc.h\<close>; no theorem
  depends on the values chosen here.
\<close>

definition wire0 :: wire where
  "wire0 = \<lparr>MAX_RPC_LEN = 8192,
            BACKUP_RPC_HEARTBEAT_REQ_LEN = 8,
            BACKUP_RPC_WRITE_REQ_LEN_WODATA = 24,
            BACKUP_RPC_COMMIT_REQ_LEN = 16,
            BACKUP_RPC_FREE_REQ_LEN = 16,
            BACKUP_RPC_GETSEGMENTLIST_REQ_LEN = 8,
            BACKUP_RPC_GETSEGMENTMETADATA_REQ_LEN = 16,
            BACKUP_RPC_RETRIEVE_REQ_LEN = 16\<rparr>"

definition host_with :: "nat \<Rightarrow> resp_body backup_rpc \<Rightarrow> BackupHost" where
  "host_with l r = \<lparr>net = \<lparr>sent = [], inbox = [(l, r)]\<rparr>\<rparr>"

section \<open>Properties of RpcTracker\<close>

subsection \<open>Slots and id lists\<close>

lemma slot_lt: "0 < W \<Longrightarrow> slot W i < W"
  by (simp add: slot_def)

lemma nat_mod_neq: "(a::nat) < b \<Longrightarrow> b < a + W \<Longrightarrow> a mod W \<noteq> b mod W"
proof
  assume a: "a < b" "b < a + W" "a mod W = b mod W"
  then have "b mod W = a mod W" by simp
  then have "W dvd b - a" using a(1) by (simp add: mod_eq_dvd_iff_nat)
  moreover have "0 < b - a" "b - a < W" using a by simp_all
  ultimately show False using nat_dvd_not_less by blast
qed

lemma slot_neq: "unat i < unat j \<Longrightarrow> unat j < unat i + W \<Longrightarrow> slot W i \<noteq> slot W j"
  unfolding slot_def by (rule nat_mod_neq)

lemma set_ids_below: "i \<in> set (ids_below n) \<longleftrightarrow> 1 \<le> i \<and> i < n"
proof
  assume "i \<in> set (ids_below n)"
  then obtain k where k: "1 \<le> k" "k < unat n" "i = of_nat k"
    unfolding ids_below_def by auto
  have "unat n < 2 ^ LENGTH(64)" by (rule unsigned_less)
  then have "k < 2 ^ 64" using k(2) by simp
  then have "unat i = k" using k(3) by (simp add: unat_of_nat)
  with k show "1 \<le> i \<and> i < n" by (simp add: word_le_nat_alt word_less_nat_alt)
next
  assume "1 \<le> i \<and> i < n"
  then have "1 \<le> unat i" "unat i < unat n" by (simp_all add: word_le_nat_alt word_less_nat_alt)
  then have "unat i \<in> set [1..<unat n]" by simp
  then have "(of_nat (unat i) :: rpcid) \<in> of_nat ` set [1..<unat n]" by (rule imageI)
  then show "i \<in> set (ids_below n)" by (simp add: ids_below_def)
qed

lemma ids_below_Suc:
  assumes "1 \<le> n" "unat n + 1 < 2 ^ 64"
  shows "ids_below (n + 1) = n # ids_below n"
proof -
  have u: "unat (n + 1) = Suc (unat n)" using assms(2) by (simp add: unat_word_ariths)
  have "1 \<le> unat n" using assms(1) by (simp add: word_le_nat_alt)
  then have "[1..<Suc (unat n)] = [1..<unat n] @ [unat n]" by simp
  then show ?thesis by (simp add: ids_below_def u)
qed

lemma ids_below_one: "ids_below 1 = []"
  by (simp add: ids_below_def)

lemma window_inv_init: "0 < W \<Longrightarrow> W < 2 ^ 64 \<Longrightarrow> window_inv W (init W, no_hist)"
  by (simp add: window_inv_def window_base_def init_def no_hist_def ids_below_one)

lemma full_iff:
  fixes fm nx :: rpcid
  assumes "W < 2 ^ 64" "fm \<le> nx"
  shows "fm + of_nat W = nx \<longleftrightarrow> unat nx = unat fm + W"
proof
  assume e: "fm + of_nat W = nx"
  have "unat (of_nat W :: rpcid) = W" using assms(1) by (simp add: unat_of_nat)
  then have m: "unat nx = (unat fm + W) mod 2 ^ 64"
    using e by (simp add: unat_word_ariths flip: e)
  have b: "unat fm < 2 ^ LENGTH(64)" by (rule unsigned_less)
  have le: "unat fm \<le> unat nx" using assms(2) by (simp add: word_le_nat_alt)
  show "unat nx = unat fm + W"
  proof (cases "unat fm + W < 2 ^ 64")
    case True
    then show ?thesis using m by simp
  next
    case False
    then have "(unat fm + W) mod 2 ^ 64 = unat fm + W - 2 ^ 64"
      using assms(1) b by (simp add: mod_if)
    then have "unat nx < unat fm" using m assms(1) False by simp
    then show ?thesis using le by simp
  qed
next
  assume "unat nx = unat fm + W"
  then have "of_nat (unat nx) = (of_nat (unat fm + W) :: rpcid)" by simp
  then show "fm + of_nat W = nx" by simp
qed

subsection \<open>newRpcId keeps the invariant\<close>

lemma window_baseD:
  assumes "window_base W (s, h)"
  shows "0 < W" "W < 2 ^ 64" "length (rpcs s) = W"
    "1 \<le> unat (firstMissing s)" "unat (firstMissing s) \<le> unat (nextRpcId s)"
    "unat (nextRpcId s) \<le> unat (firstMissing s) + W"
    "issued h = ids_below (nextRpcId s)"
    "set (finished h) \<subseteq> set (issued h)"
    "\<And>i. i \<in> set (issued h) \<Longrightarrow> unat i < unat (firstMissing s) \<Longrightarrow> i \<in> set (finished h)"
    "\<And>i. i \<in> set (issued h) \<Longrightarrow> unat (nextRpcId s) \<le> unat i + W \<Longrightarrow>
       rpcs s ! slot W i \<longleftrightarrow> i \<in> set (finished h)"
  using assms unfolding window_base_def Let_def
  by (auto simp: word_le_nat_alt word_less_nat_alt)

lemma window_baseI:
  assumes "0 < W" "W < 2 ^ 64" "length (rpcs s) = W"
    "1 \<le> unat (firstMissing s)" "unat (firstMissing s) \<le> unat (nextRpcId s)"
    "unat (nextRpcId s) \<le> unat (firstMissing s) + W"
    "issued h = ids_below (nextRpcId s)"
    "set (finished h) \<subseteq> set (issued h)"
    "\<And>i. i \<in> set (issued h) \<Longrightarrow> unat i < unat (firstMissing s) \<Longrightarrow> i \<in> set (finished h)"
    "\<And>i. i \<in> set (issued h) \<Longrightarrow> unat (nextRpcId s) \<le> unat i + W \<Longrightarrow>
       rpcs s ! slot W i \<longleftrightarrow> i \<in> set (finished h)"
  shows "window_base W (s, h)"
  using assms unfolding window_base_def Let_def
  by (auto simp: word_le_nat_alt word_less_nat_alt)

lemma issued_range:
  assumes "window_base W (s, h)"
  shows "i \<in> set (issued h) \<longleftrightarrow> 1 \<le> unat i \<and> unat i < unat (nextRpcId s)"
  using window_baseD(7) [OF assms]
  by (simp add: set_ids_below word_le_nat_alt word_less_nat_alt)

lemma newRpcId_base:
  assumes b: "window_base W (s, h)"
    and nf: "firstMissing s + of_nat W \<noteq> nextRpcId s"
    and nov: "unat (nextRpcId s) + 1 < 2 ^ 64"
  shows "window_base W
     (s\<lparr>rpcs := (rpcs s)[slot W (nextRpcId s) := False], nextRpcId := nextRpcId s + 1\<rparr>,
      h\<lparr>issued := nextRpcId s # issued h\<rparr>)"
proof -
  note d = window_baseD [OF b]
  have le: "firstMissing s \<le> nextRpcId s" using d(5) by (simp add: word_le_nat_alt)
  have u: "unat (nextRpcId s + 1) = unat (nextRpcId s) + 1"
    using nov by (simp add: unat_word_ariths)
  have nfull: "unat (nextRpcId s) \<noteq> unat (firstMissing s) + W"
    using nf full_iff [OF d(2) le] by simp
  have one: "1 \<le> nextRpcId s" using d(4) d(5) by (simp add: word_le_nat_alt)
  have notin: "nextRpcId s \<notin> set (issued h)" using issued_range [OF b] by simp
  have sl: "slot W (nextRpcId s) < length (rpcs s)" using d(1) d(3) by (simp add: slot_lt)
  show ?thesis
  proof (rule window_baseI)
    show "issued (h\<lparr>issued := nextRpcId s # issued h\<rparr>) =
        ids_below (nextRpcId (s\<lparr>rpcs := (rpcs s)[slot W (nextRpcId s) := False],
                                nextRpcId := nextRpcId s + 1\<rparr>))"
      using ids_below_Suc [OF one nov] d(7) by simp
  next
    fix i
    assume i: "i \<in> set (issued (h\<lparr>issued := nextRpcId s # issued h\<rparr>))"
      and "unat i < unat (firstMissing (s\<lparr>rpcs := (rpcs s)[slot W (nextRpcId s) := False],
                                nextRpcId := nextRpcId s + 1\<rparr>))"
    then have "unat i < unat (firstMissing s)" by simp
    moreover from this d(5) have "i \<noteq> nextRpcId s" by auto
    ultimately show "i \<in> set (finished (h\<lparr>issued := nextRpcId s # issued h\<rparr>))"
      using i d(9) by simp
  next
    fix i
    assume i: "i \<in> set (issued (h\<lparr>issued := nextRpcId s # issued h\<rparr>))"
      and w: "unat (nextRpcId (s\<lparr>rpcs := (rpcs s)[slot W (nextRpcId s) := False],
                                nextRpcId := nextRpcId s + 1\<rparr>)) \<le> unat i + W"
    show "rpcs (s\<lparr>rpcs := (rpcs s)[slot W (nextRpcId s) := False],
                  nextRpcId := nextRpcId s + 1\<rparr>) ! slot W i
          \<longleftrightarrow> i \<in> set (finished (h\<lparr>issued := nextRpcId s # issued h\<rparr>))"
    proof (cases "i = nextRpcId s")
      case True
      then show ?thesis using sl notin d(8) by auto
    next
      case False
      then have ii: "i \<in> set (issued h)" using i by simp
      then have "unat i < unat (nextRpcId s)" using issued_range [OF b] by simp
      moreover have "unat (nextRpcId s) < unat i + W" using w u by simp
      ultimately have "slot W i \<noteq> slot W (nextRpcId s)" by (rule slot_neq)
      moreover have "unat (nextRpcId s) \<le> unat i + W" using w u by simp
      ultimately show ?thesis using d(10) [OF ii] by simp
    qed
  qed (use d u nfull in auto)
qed

lemma window_inv_newRpcId:
  assumes inv: "window_inv W (s, h)" and nov: "unat (nextRpcId s) + 1 < 2 ^ 64"
  shows "\<exists>c'. step W (s, h) NewRpcId = Inr c' \<and> window_inv W c'"
proof (cases "firstMissing s + of_nat W = nextRpcId s")
  case True
  then show ?thesis using inv by (simp add: newRpcId_def)
next
  case False
  from inv have b: "window_base W (s, h)" by (simp add: window_inv_def)
  note d = window_baseD [OF b]
  have nz: "nextRpcId s \<noteq> 0" using d(4) d(5) by (auto simp: word_unat_eq_iff)
  have u: "unat (nextRpcId s + 1) = unat (nextRpcId s) + 1"
    using nov by (simp add: unat_word_ariths)
  have top: "firstMissing s < nextRpcId s + 1 \<longrightarrow> firstMissing s \<notin> set (finished h)"
  proof (cases "firstMissing s = nextRpcId s")
    case True
    then have "firstMissing s \<notin> set (issued h)" using issued_range [OF b] by simp
    then show ?thesis using d(8) by auto
  next
    case False
    then have "unat (firstMissing s) < unat (nextRpcId s)"
      using d(5) by (simp add: word_unat_eq_iff)
    then show ?thesis using inv by (simp add: window_inv_def word_less_nat_alt)
  qed
  show ?thesis
    using False nz top newRpcId_base [OF b False nov]
    by (simp add: newRpcId_def window_inv_def)
qed

subsection \<open>The loop of rpcFinished\<close>

lemma unat_inc: "(a::rpcid) < b \<Longrightarrow> unat (a + 1) = unat a + 1"
  by unat_arith

lemma advance_step:
  "rpcs s ! slot W (firstMissing s) \<Longrightarrow> firstMissing s < nextRpcId s \<Longrightarrow>
   advance W s = advance W (s\<lparr>firstMissing := firstMissing s + 1\<rparr>)"
  by (simp add: advance.simps [of W s])

lemma advance_stop:
  "\<not> (rpcs s ! slot W (firstMissing s) \<and> firstMissing s < nextRpcId s) \<Longrightarrow>
   advance W s = s"
  by (simp only: advance.simps [of W s] if_False)

lemma advance_keeps:
  "nextRpcId (advance W s) = nextRpcId s \<and> rpcs (advance W s) = rpcs s"
proof (induction W s rule: advance.induct)
  case (1 W s)
  show ?case
  proof (cases "rpcs s ! slot W (firstMissing s) \<and> firstMissing s < nextRpcId s")
    case True
    then show ?thesis using "1.IH" by (simp add: advance_step)
  next
    case False
    then show ?thesis by (simp only: advance_stop simp_thms)
  qed
qed

lemma advance_range:
  "firstMissing s \<le> nextRpcId s \<Longrightarrow>
   firstMissing s \<le> firstMissing (advance W s) \<and>
   firstMissing (advance W s) \<le> nextRpcId s"
proof (induction W s rule: advance.induct)
  case (1 W s)
  show ?case
  proof (cases "rpcs s ! slot W (firstMissing s) \<and> firstMissing s < nextRpcId s")
    case True
    then have lt: "firstMissing s < nextRpcId s" by simp
    have u: "unat (firstMissing s + 1) = unat (firstMissing s) + 1"
      using lt by (rule unat_inc)
    have le: "firstMissing s + 1 \<le> nextRpcId s"
      using lt u by (simp add: word_le_nat_alt word_less_nat_alt)
    have "firstMissing s \<le> firstMissing s + 1"
      using u by (simp add: word_le_nat_alt)
    have eq: "advance W s = advance W (s\<lparr>firstMissing := firstMissing s + 1\<rparr>)"
      using True by (simp add: advance_step)
    from \<open>firstMissing s \<le> firstMissing s + 1\<close> show ?thesis
      unfolding eq using "1.IH" [OF True] le by auto
  next
    case False
    have eq: "advance W s = s" using False by (rule advance_stop)
    show ?thesis unfolding eq using "1.prems" by simp
  qed
qed

text \<open>
  Every slot the loop walks over is marked finished, and the loop stops at a slot that is
  not, or at \<open>nextRpcId\<close>.
\<close>

lemma advance_run:
  "firstMissing s \<le> nextRpcId s \<Longrightarrow>
   (\<forall>j. firstMissing s \<le> j \<and> j < firstMissing (advance W s) \<longrightarrow> rpcs s ! slot W j) \<and>
   (firstMissing (advance W s) = nextRpcId s \<or>
    \<not> rpcs s ! slot W (firstMissing (advance W s)))"
proof (induction W s rule: advance.induct)
  case (1 W s)
  show ?case
  proof (cases "rpcs s ! slot W (firstMissing s) \<and> firstMissing s < nextRpcId s")
    case True
    then have lt: "firstMissing s < nextRpcId s" by simp
    have u: "unat (firstMissing s + 1) = unat (firstMissing s) + 1"
      using lt by (rule unat_inc)
    have le: "firstMissing s + 1 \<le> nextRpcId s"
      using lt u by (simp add: word_le_nat_alt word_less_nat_alt)
    have split: "\<And>j. firstMissing s \<le> j \<Longrightarrow> j = firstMissing s \<or> firstMissing s + 1 \<le> j"
      using u by (auto simp: word_le_nat_alt word_unat_eq_iff)
    have eq: "advance W s = advance W (s\<lparr>firstMissing := firstMissing s + 1\<rparr>)"
      using True by (simp add: advance_step)
    show ?thesis
      unfolding eq using "1.IH" [OF True] le True split by auto
  next
    case False
    have eq: "advance W s = s" using False by (rule advance_stop)
    show ?thesis unfolding eq using False "1.prems" by auto
  qed
qed

lemma base_bump:
  assumes b: "window_base W (s, h)" and lt: "firstMissing s < nextRpcId s"
    and f: "firstMissing s \<in> set (finished h)"
  shows "window_base W (s\<lparr>firstMissing := firstMissing s + 1\<rparr>, h)"
proof -
  note d = window_baseD [OF b]
  have u: "unat (firstMissing s + 1) = unat (firstMissing s) + 1"
    using lt by (rule unat_inc)
  have l: "unat (firstMissing s) < unat (nextRpcId s)" using lt by (simp add: word_less_nat_alt)
  show ?thesis
  proof (rule window_baseI)
    fix i
    assume "i \<in> set (issued h)"
      and "unat i < unat (firstMissing (s\<lparr>firstMissing := firstMissing s + 1\<rparr>))"
    then have i: "i \<in> set (issued h)" "unat i < unat (firstMissing s) + 1"
      using u by simp_all
    show "i \<in> set (finished h)"
    proof (cases "unat i < unat (firstMissing s)")
      case True
      then show ?thesis using d(9) i(1) by simp
    next
      case False
      then have "unat i = unat (firstMissing s)" using i(2) by simp
      then have "i = firstMissing s" by (simp add: word_unat_eq_iff)
      then show ?thesis using f by simp
    qed
  qed (use d u l in auto)
qed

lemma advance_inv: "window_base W (s, h) \<Longrightarrow> window_inv W (advance W s, h)"
proof (induction W s rule: advance.induct)
  case (1 W s)
  note b = "1.prems"
  note d = window_baseD [OF b]
  show ?case
  proof (cases "rpcs s ! slot W (firstMissing s) \<and> firstMissing s < nextRpcId s")
    case True
    then have lt: "firstMissing s < nextRpcId s" by simp
    then have "firstMissing s \<in> set (issued h)"
      using issued_range [OF b] d(4) by (simp add: word_less_nat_alt)
    then have "firstMissing s \<in> set (finished h)"
      using d(10) [of "firstMissing s"] d(6) True by simp
    then have "window_base W (s\<lparr>firstMissing := firstMissing s + 1\<rparr>, h)"
      using b lt by (rule base_bump [rotated 2])
    then show ?thesis using "1.IH" [OF True] True by (simp add: advance_step)
  next
    case False
    have eq: "advance W s = s" using False by (rule advance_stop)
    have "firstMissing s < nextRpcId s \<longrightarrow> firstMissing s \<notin> set (finished h)"
    proof
      assume lt: "firstMissing s < nextRpcId s"
      then have "firstMissing s \<in> set (issued h)"
        using issued_range [OF b] d(4) by (simp add: word_less_nat_alt)
      then show "firstMissing s \<notin> set (finished h)"
        using d(10) [of "firstMissing s"] d(6) False lt by simp
    qed
    then show ?thesis unfolding eq using b by (simp add: window_inv_def)
  qed
qed

subsection \<open>rpcFinished keeps the invariant\<close>

lemma pending_iff: "i \<in> set (pending h) \<longleftrightarrow> i \<in> set (issued h) \<and> i \<notin> set (finished h)"
  by (auto simp: pending_def)

lemma pending_window:
  assumes b: "window_base W (s, h)" and p: "i \<in> set (pending h)"
  shows "unat (firstMissing s) \<le> unat i" "unat i < unat (nextRpcId s)"
    "\<not> rpcs s ! slot W i"
proof -
  note d = window_baseD [OF b]
  from p have i: "i \<in> set (issued h)" "i \<notin> set (finished h)" by (simp_all add: pending_iff)
  show 1: "unat (firstMissing s) \<le> unat i" using d(9) [OF i(1)] i(2) by (cases "unat i < unat (firstMissing s)") auto
  show 2: "unat i < unat (nextRpcId s)" using issued_range [OF b] i(1) by simp
  show "\<not> rpcs s ! slot W i" using d(10) [OF i(1)] i(2) 1 d(6) by simp
qed

lemma mark_base:
  assumes b: "window_base W (s, h)" and p: "i \<in> set (pending h)"
  shows "window_base W (s\<lparr>rpcs := (rpcs s)[slot W i := True]\<rparr>, h\<lparr>finished := i # finished h\<rparr>)"
proof -
  note d = window_baseD [OF b]
  note w = pending_window [OF b p]
  from p have i: "i \<in> set (issued h)" by (simp add: pending_iff)
  have sl: "slot W i < length (rpcs s)" using d(1) d(3) by (simp add: slot_lt)
  show ?thesis
  proof (rule window_baseI)
    fix j
    assume j: "j \<in> set (issued (h\<lparr>finished := i # finished h\<rparr>))"
      and n: "unat (nextRpcId (s\<lparr>rpcs := (rpcs s)[slot W i := True]\<rparr>)) \<le> unat j + W"
    show "rpcs (s\<lparr>rpcs := (rpcs s)[slot W i := True]\<rparr>) ! slot W j
          \<longleftrightarrow> j \<in> set (finished (h\<lparr>finished := i # finished h\<rparr>))"
    proof (cases "j = i")
      case True
      then show ?thesis using sl by simp
    next
      case False
      then have ne: "unat j \<noteq> unat i" by (simp add: word_unat_eq_iff)
      from j have jj: "j \<in> set (issued h)" by simp
      then have jn: "unat j < unat (nextRpcId s)" using issued_range [OF b] by simp
      have "slot W j \<noteq> slot W i"
      proof (cases "unat j < unat i")
        case True
        moreover have "unat i < unat j + W" using w(2) n by simp
        ultimately show ?thesis by (rule slot_neq)
      next
        case False
        then have "unat i < unat j" using ne by simp
        moreover have "unat j < unat i + W" using jn d(6) w(1) by simp
        ultimately show ?thesis using slot_neq [of i j W] by simp
      qed
      then show ?thesis using d(10) [OF jj] n False by simp
    qed
  qed (use d i in auto)
qed

lemma window_inv_rpcFinished:
  assumes inv: "window_inv W (s, h)" and p: "i \<in> set (pending h)"
  shows "\<exists>s'. rpcFinished W s i = Inr s' \<and>
           window_inv W (s', h\<lparr>finished := i # finished h\<rparr>) \<and>
           firstMissing s \<le> firstMissing s' \<and> nextRpcId s' = nextRpcId s"
proof -
  from inv have b: "window_base W (s, h)" by (simp add: window_inv_def)
  note d = window_baseD [OF b]
  note w = pending_window [OF b p]
  let ?s1 = "s\<lparr>rpcs := (rpcs s)[slot W i := True]\<rparr>"
  let ?h1 = "h\<lparr>finished := i # finished h\<rparr>"
  have b1: "window_base W (?s1, ?h1)" using b p by (rule mark_base)
  show ?thesis
  proof (cases "firstMissing s = i")
    case True
    let ?s2 = "?s1\<lparr>firstMissing := firstMissing ?s1 + 1\<rparr>"
    have lt: "firstMissing ?s1 < nextRpcId ?s1" using True w(2) by (simp add: word_less_nat_alt)
    have "firstMissing ?s1 \<in> set (finished ?h1)" using True by simp
    with b1 lt have b2: "window_base W (?s2, ?h1)" by (rule base_bump)
    then have i2: "window_inv W (advance W ?s2, ?h1)" by (rule advance_inv)
    have u: "unat (firstMissing s + 1) = unat (firstMissing s) + 1"
      using lt unat_inc [of "firstMissing s" "nextRpcId s"] by simp
    have le2: "firstMissing ?s2 \<le> nextRpcId ?s2"
      using u lt by (simp add: word_le_nat_alt word_less_nat_alt)
    have "firstMissing s \<le> firstMissing ?s2" using u by (simp add: word_le_nat_alt)
    then have mono: "firstMissing s \<le> firstMissing (advance W ?s2)"
      using advance_range [OF le2, of W] by (auto intro: order_trans)
    have "rpcFinished W s i = Inr (advance W ?s2)"
      using w(3) True by (simp add: rpcFinished_def Let_def)
    then show ?thesis using i2 mono advance_keeps [of W ?s2] by simp
  next
    case False
    have "window_inv W (?s1, ?h1)"
      using b1 inv False by (auto simp: window_inv_def)
    moreover have "rpcFinished W s i = Inr ?s1"
      using w(3) False by (simp add: rpcFinished_def Let_def)
    ultimately show ?thesis by simp
  qed
qed

lemma step_inv:
  assumes inv: "window_inv W c" and v: "valid_call c x"
    and nov: "unat (nextRpcId (fst c)) + 1 < 2 ^ 64"
  shows "\<exists>c'. step W c x = Inr c' \<and> window_inv W c' \<and>
           firstMissing (fst c) \<le> firstMissing (fst c') \<and>
           unat (nextRpcId (fst c')) \<le> unat (nextRpcId (fst c)) + 1"
proof (cases c)
  case (Pair s h)
  show ?thesis
  proof (cases x)
    case NewRpcId
    obtain c' where c': "step W (s, h) NewRpcId = Inr c'" "window_inv W c'"
      using window_inv_newRpcId [of W s h] inv nov Pair by auto
    have "firstMissing (fst c') = firstMissing s"
      using c'(1) by (auto simp: newRpcId_def split: if_splits)
    moreover have "unat (nextRpcId (fst c')) \<le> unat (nextRpcId s) + 1"
      using c'(1) nov by (auto simp: newRpcId_def unat_word_ariths split: if_splits)
    ultimately show ?thesis using c' Pair NewRpcId by simp
  next
    case (RpcFinished i)
    then have "i \<in> set (pending h)" using v Pair by simp
    from window_inv_rpcFinished [OF _ this, of W s] inv Pair
    show ?thesis using Pair RpcFinished by auto
  qed
qed

lemma run_inv:
  "window_inv W c \<Longrightarrow> valid W c cs \<Longrightarrow> unat (nextRpcId (fst c)) + length cs < 2 ^ 64 \<Longrightarrow>
   \<exists>c'. run W c cs = Inr c' \<and> window_inv W c' \<and>
        firstMissing (fst c) \<le> firstMissing (fst c') \<and>
        unat (nextRpcId (fst c')) \<le> unat (nextRpcId (fst c)) + length cs"
proof (induction cs arbitrary: c)
  case Nil
  then show ?case by simp
next
  case (Cons x xs)
  from Cons.prems have v: "valid_call c x" and n1: "unat (nextRpcId (fst c)) + 1 < 2 ^ 64"
    by simp_all
  from step_inv [OF Cons.prems(1) v n1] obtain c1 where
    c1: "step W c x = Inr c1" "window_inv W c1"
      "firstMissing (fst c) \<le> firstMissing (fst c1)"
      "unat (nextRpcId (fst c1)) \<le> unat (nextRpcId (fst c)) + 1"
    by blast
  have v1: "valid W c1 xs" using Cons.prems(2) c1(1) by simp
  have n2: "unat (nextRpcId (fst c1)) + length xs < 2 ^ 64" using Cons.prems(3) c1(4) by simp
  from Cons.IH [OF c1(2) v1 n2] obtain c' where
    c': "run W c1 xs = Inr c'" "window_inv W c'"
      "firstMissing (fst c1) \<le> firstMissing (fst c')"
      "unat (nextRpcId (fst c')) \<le> unat (nextRpcId (fst c1)) + length xs"
    by blast
  show ?case using c1 c' by auto
qed

lemma run_append:
  "run W c (xs @ ys) = (case run W c xs of Inl e \<Rightarrow> Inl e | Inr c1 \<Rightarrow> run W c1 ys)"
  by (induction xs arbitrary: c) (auto split: sum.splits)

lemma valid_append:
  "valid W c (xs @ ys) \<Longrightarrow> valid W c xs \<and> (\<forall>c1. run W c xs = Inr c1 \<longrightarrow> valid W c1 ys)"
  by (induction xs arbitrary: c) (auto split: sum.splits)

subsection \<open>Reachable states and the watermark\<close>

lemma full_alt:
  fixes fm nx w :: rpcid
  shows "nx - fm = w \<longleftrightarrow> fm + w = nx"
  by (auto simp: algebra_simps)

lemma newRpcId_result:
  assumes inv: "window_inv W (s, h)"
  shows "(fst (newRpcId W s) = 0 \<longleftrightarrow> nextRpcId s - firstMissing s = of_nat W)"
    and "(nextRpcId s - firstMissing s = of_nat W \<longleftrightarrow>
           unat (nextRpcId s) - unat (firstMissing s) = W)"
    and "nextRpcId s - firstMissing s = of_nat W \<Longrightarrow> snd (newRpcId W s) = s"
    and "nextRpcId s - firstMissing s \<noteq> of_nat W \<Longrightarrow>
           fst (newRpcId W s) = nextRpcId s \<and> fst (newRpcId W s) \<noteq> 0 \<and>
           (\<forall>j \<in> set (issued h). j < fst (newRpcId W s)) \<and>
           \<not> rpcs (snd (newRpcId W s)) ! slot W (fst (newRpcId W s))"
proof -
  from inv have b: "window_base W (s, h)" by (simp add: window_inv_def)
  note d = window_baseD [OF b]
  have le: "firstMissing s \<le> nextRpcId s" using d(5) by (simp add: word_le_nat_alt)
  have nz: "nextRpcId s \<noteq> 0" using d(4) d(5) by (auto simp: word_unat_eq_iff)
  show "(fst (newRpcId W s) = 0 \<longleftrightarrow> nextRpcId s - firstMissing s = of_nat W)"
    using nz by (simp add: newRpcId_def full_alt)
  show "(nextRpcId s - firstMissing s = of_nat W \<longleftrightarrow>
           unat (nextRpcId s) - unat (firstMissing s) = W)"
    using full_iff [OF d(2) le] d(5) d(1) by (auto simp: full_alt)
  show "nextRpcId s - firstMissing s = of_nat W \<Longrightarrow> snd (newRpcId W s) = s"
    by (simp add: newRpcId_def full_alt)
  show "fst (newRpcId W s) = nextRpcId s \<and> fst (newRpcId W s) \<noteq> 0 \<and>
           (\<forall>j \<in> set (issued h). j < fst (newRpcId W s)) \<and>
           \<not> rpcs (snd (newRpcId W s)) ! slot W (fst (newRpcId W s))"
    if "nextRpcId s - firstMissing s \<noteq> of_nat W"
  proof -
    have sl: "slot W (nextRpcId s) < length (rpcs s)" using d(1) d(3) by (simp add: slot_lt)
    have "\<forall>j \<in> set (issued h). j < nextRpcId s"
      using issued_range [OF b] by (simp add: word_less_nat_alt)
    then show ?thesis using that nz sl by (simp add: newRpcId_def full_alt)
  qed
qed

lemma reach_inv:
  assumes "0 < W" "W < 2 ^ 64" "valid W (init W, no_hist) cs" "length cs + 1 < 2 ^ 64"
    "run W (init W, no_hist) cs = Inr c"
  shows "window_inv W c" "unat (nextRpcId (fst c)) \<le> length cs + 1"
proof -
  have i0: "window_inv W (init W, no_hist)" using assms(1,2) by (rule window_inv_init)
  have n0: "unat (nextRpcId (fst (init W, no_hist))) + length cs < 2 ^ 64"
    using assms(4) by (simp add: init_def)
  from run_inv [OF i0 assms(3) n0] assms(5)
  show "window_inv W c" "unat (nextRpcId (fst c)) \<le> length cs + 1"
    by (auto simp: init_def)
qed

lemma ackId_unat: "window_inv W (s, h) \<Longrightarrow> unat (ackId s) + 1 = unat (firstMissing s)"
proof -
  assume "window_inv W (s, h)"
  then have "1 \<le> firstMissing s" by (simp add: window_inv_def window_base_def)
  then show ?thesis unfolding ackId_def by unat_arith
qed

lemma ackId_below_pending:
  assumes inv: "window_inv W (s, h)" and p: "i \<in> set (pending h)"
  shows "ackId s < i"
proof -
  from inv have b: "window_base W (s, h)" by (simp add: window_inv_def)
  from pending_window(1) [OF b p] ackId_unat [OF inv]
  show ?thesis by (simp add: word_less_nat_alt)
qed

lemma rpcFinished_first_missing:
  assumes inv: "window_inv W (s, h)" and p: "firstMissing s \<in> set (pending h)"
  shows "\<exists>s'. rpcFinished W s (firstMissing s) = Inr s' \<and>
           firstMissing s < firstMissing s' \<and> firstMissing s' \<le> nextRpcId s \<and>
           nextRpcId s' = nextRpcId s \<and>
           (\<forall>j. firstMissing s < j \<and> j < firstMissing s' \<longrightarrow>
                j \<in> set (finished h) \<and> rpcs s ! slot W j) \<and>
           (firstMissing s' = nextRpcId s \<or>
            firstMissing s' \<in> set (pending h) \<and> \<not> rpcs s ! slot W (firstMissing s'))"
proof -
  let ?i = "firstMissing s"
  from inv have b: "window_base W (s, h)" by (simp add: window_inv_def)
  note d = window_baseD [OF b]
  note w = pending_window [OF b p]
  let ?s1 = "s\<lparr>rpcs := (rpcs s)[slot W ?i := True]\<rparr>"
  let ?h1 = "h\<lparr>finished := ?i # finished h\<rparr>"
  let ?s2 = "?s1\<lparr>firstMissing := ?i + 1\<rparr>"
  let ?s' = "advance W ?s2"
  have b1: "window_base W (?s1, ?h1)" using b p by (rule mark_base)
  note d1 = window_baseD [OF b1]
  have lt: "?i < nextRpcId s" using w(2) by (simp add: word_less_nat_alt)
  have u: "unat (?i + 1) = unat ?i + 1" using lt by (rule unat_inc)
  have le2: "firstMissing ?s2 \<le> nextRpcId ?s2"
    using u w(2) by (simp add: word_le_nat_alt)
  note rg = advance_range [OF le2, of W]
  note rn = advance_run [OF le2, of W]
  have r: "rpcFinished W s ?i = Inr ?s'"
    using w(3) by (simp add: rpcFinished_def Let_def)
  have up: "unat ?i < unat (firstMissing ?s')" "unat (firstMissing ?s') \<le> unat (nextRpcId s)"
    using rg u by (simp_all add: word_le_nat_alt)
  have bits: "rpcs ?s1 ! slot W j \<longleftrightarrow> j \<in> set (finished h) \<and> rpcs s ! slot W j"
    if j: "unat ?i < unat j" "unat j < unat (nextRpcId s)" for j
  proof -
    have ji: "j \<in> set (issued h)" using issued_range [OF b] j d(4) by simp
    have n: "unat (nextRpcId s) \<le> unat j + W" using j d(6) by simp
    have ne: "j \<noteq> ?i" using j(1) by auto
    have "rpcs ?s1 ! slot W j \<longleftrightarrow> j \<in> set (finished h)"
      using d1(10) [of j] ji n ne by simp
    moreover have "rpcs s ! slot W j \<longleftrightarrow> j \<in> set (finished h)"
      using d(10) [OF ji n] .
    ultimately show ?thesis by simp
  qed
  have run: "\<forall>j. ?i < j \<and> j < firstMissing ?s' \<longrightarrow> j \<in> set (finished h) \<and> rpcs s ! slot W j"
  proof (intro allI impI)
    fix j
    assume "?i < j \<and> j < firstMissing ?s'"
    then have j: "unat ?i < unat j" "unat j < unat (firstMissing ?s')"
      by (simp_all add: word_less_nat_alt)
    then have "firstMissing ?s2 \<le> j \<and> j < firstMissing ?s'"
      using u by (simp add: word_le_nat_alt word_less_nat_alt)
    then have "rpcs ?s2 ! slot W j" using rn by blast
    then have "rpcs ?s1 ! slot W j" by simp
    then show "j \<in> set (finished h) \<and> rpcs s ! slot W j"
      using bits [of j] j up(2) by simp
  qed
  have stop: "firstMissing ?s' = nextRpcId s \<or>
      firstMissing ?s' \<in> set (pending h) \<and> \<not> rpcs s ! slot W (firstMissing ?s')"
  proof (cases "firstMissing ?s' = nextRpcId s")
    case True
    then show ?thesis by simp
  next
    case False
    then have l: "unat (firstMissing ?s') < unat (nextRpcId s)"
      using up(2) by (simp add: word_unat_eq_iff)
    from rn False have "\<not> rpcs ?s1 ! slot W (firstMissing ?s')" by simp
    then have nf: "\<not> (firstMissing ?s' \<in> set (finished h) \<and> rpcs s ! slot W (firstMissing ?s'))"
      using bits [OF up(1) l] by simp
    have ji: "firstMissing ?s' \<in> set (issued h)"
      using issued_range [OF b] up(1) l d(4) by simp
    have n: "unat (nextRpcId s) \<le> unat (firstMissing ?s') + W" using up(1) d(6) by simp
    from d(10) [OF ji n] nf ji show ?thesis by (simp add: pending_iff)
  qed
  have "firstMissing s < firstMissing ?s'" "firstMissing ?s' \<le> nextRpcId s"
    using up by (simp_all add: word_le_nat_alt word_less_nat_alt)
  moreover have "nextRpcId ?s' = nextRpcId s" using advance_keeps [of W ?s2] by simp
  ultimately show ?thesis using r run stop by blast
qed

lemma window_inv_claims:
  assumes inv: "window_inv W (s, h)"
  shows "firstMissing s \<le> nextRpcId s"
    and "unat (nextRpcId s) - unat (firstMissing s) \<le> W"
    and "\<forall>i. firstMissing s \<le> i \<and> i < nextRpcId s \<longrightarrow>
           (rpcs s ! slot W i \<longleftrightarrow> i \<in> set (finished h)) \<and>
           (\<not> rpcs s ! slot W i \<longleftrightarrow> i \<in> set (pending h))"
proof -
  from inv have b: "window_base W (s, h)" by (simp add: window_inv_def)
  note d = window_baseD [OF b]
  show "firstMissing s \<le> nextRpcId s" using d(5) by (simp add: word_le_nat_alt)
  show "unat (nextRpcId s) - unat (firstMissing s) \<le> W" using d(6) by simp
  show "\<forall>i. firstMissing s \<le> i \<and> i < nextRpcId s \<longrightarrow>
           (rpcs s ! slot W i \<longleftrightarrow> i \<in> set (finished h)) \<and>
           (\<not> rpcs s ! slot W i \<longleftrightarrow> i \<in> set (pending h))"
  proof (intro allI impI)
    fix i
    assume "firstMissing s \<le> i \<and> i < nextRpcId s"
    then have r: "unat (firstMissing s) \<le> unat i" "unat i < unat (nextRpcId s)"
      by (simp_all add: word_le_nat_alt word_less_nat_alt)
    then have i: "i \<in> set (issued h)" using issued_range [OF b] d(4) by simp
    have "unat (nextRpcId s) \<le> unat i + W" using r d(6) by simp
    from d(10) [OF i this] i
    show "(rpcs s ! slot W i \<longleftrightarrow> i \<in> set (finished h)) \<and>
           (\<not> rpcs s ! slot W i \<longleftrightarrow> i \<in> set (pending h))"
      by (simp add: pending_iff)
  qed
qed

subsection \<open>The claims about RpcTracker\<close>

text \<open>
  Claim C1. On a fresh tracker, after any call sequence that respects the contract of
  \<^verbatim>\<open>rpcFinished\<close> (and is too short for the 64-bit counter to wrap), no call
  aborts; \<^verbatim>\<open>ackId()\<close> after the whole sequence is at least \<^verbatim>\<open>ackId()\<close> after any
  prefix of it, equals \<open>firstMissing - 1\<close> without wrapping, and is strictly less
  than every id issued and not yet finished.
\<close>

theorem ackId_watermark:
  assumes "0 < W" and "W < 2 ^ 64"
    and "valid W (init W, no_hist) (xs @ ys)"
    and "length (xs @ ys) + 1 < 2 ^ 64"
  shows "\<exists>c1 c2. run W (init W, no_hist) xs = Inr c1 \<and>
           run W (init W, no_hist) (xs @ ys) = Inr c2 \<and>
           ackId (fst c1) \<le> ackId (fst c2) \<and>
           ackId (fst c2) = firstMissing (fst c2) - 1 \<and>
           unat (ackId (fst c2)) + 1 = unat (firstMissing (fst c2)) \<and>
           (\<forall>i \<in> set (pending (snd c2)). ackId (fst c2) < i)"
proof -
  let ?c0 = "(init W, no_hist)"
  have i0: "window_inv W ?c0" using assms(1,2) by (rule window_inv_init)
  from valid_append [OF assms(3)] have vx: "valid W ?c0 xs"
    and vy: "\<And>c1. run W ?c0 xs = Inr c1 \<Longrightarrow> valid W c1 ys" by simp_all
  have nx: "unat (nextRpcId (fst ?c0)) + length xs < 2 ^ 64"
    using assms(4) by (simp add: init_def)
  from run_inv [OF i0 vx nx] obtain c1 where
    c1: "run W ?c0 xs = Inr c1" "window_inv W c1"
      "unat (nextRpcId (fst c1)) \<le> unat (nextRpcId (fst ?c0)) + length xs"
    by blast
  have ny: "unat (nextRpcId (fst c1)) + length ys < 2 ^ 64"
    using c1(3) assms(4) by (simp add: init_def)
  from run_inv [OF c1(2) vy [OF c1(1)] ny] obtain c2 where
    c2: "run W c1 ys = Inr c2" "window_inv W c2"
      "firstMissing (fst c1) \<le> firstMissing (fst c2)"
    by blast
  have r2: "run W ?c0 (xs @ ys) = Inr c2" using c1(1) c2(1) by (simp add: run_append)
  have u1: "unat (ackId (fst c1)) + 1 = unat (firstMissing (fst c1))"
    using ackId_unat [of W "fst c1" "snd c1"] c1(2) by simp
  have u2: "unat (ackId (fst c2)) + 1 = unat (firstMissing (fst c2))"
    using ackId_unat [of W "fst c2" "snd c2"] c2(2) by simp
  have mono: "ackId (fst c1) \<le> ackId (fst c2)"
    using u1 u2 c2(3) by (simp add: word_le_nat_alt)
  have below: "\<forall>i \<in> set (pending (snd c2)). ackId (fst c2) < i"
    using ackId_below_pending [of W "fst c2" "snd c2"] c2(2) by simp
  show ?thesis using c1(1) r2 mono u2 below by (auto simp: ackId_def)
qed

theorem ackId_watermark_witness:
  "valid 4 (init 4, no_hist) ([NewRpcId, NewRpcId, RpcFinished 2] @ [NewRpcId, RpcFinished 1]) \<and>
   (\<exists>c1 c2. run 4 (init 4, no_hist) [NewRpcId, NewRpcId, RpcFinished 2] = Inr c1 \<and>
      run 4 (init 4, no_hist) ([NewRpcId, NewRpcId, RpcFinished 2] @ [NewRpcId, RpcFinished 1])
        = Inr c2 \<and>
      ackId (fst c1) \<le> ackId (fst c2) \<and>
      ackId (fst c2) = firstMissing (fst c2) - 1 \<and>
      unat (ackId (fst c2)) + 1 = unat (firstMissing (fst c2)) \<and>
      (\<forall>i \<in> set (pending (snd c2)). ackId (fst c2) < i))"
proof -
  have v: "valid 4 (init 4, no_hist)
      ([NewRpcId, NewRpcId, RpcFinished 2] @ [NewRpcId, RpcFinished 1])"
    by code_simp
  have l: "length ([NewRpcId, NewRpcId, RpcFinished 2] @ [NewRpcId, RpcFinished 1]) + 1
      < (2::nat) ^ 64"
    by simp
  show ?thesis
    using v ackId_watermark [of 4 "[NewRpcId, NewRpcId, RpcFinished 2]"
        "[NewRpcId, RpcFinished 1]", OF _ _ v l]
    by simp
qed

text \<open>
  Claim C2. In every state reached by such a sequence, \<^verbatim>\<open>newRpcId()\<close> returns 0
  exactly when \<open>nextRpcId - firstMissing = windowSize\<close>; otherwise the id it returns
  is not 0, is greater than every id handed out before, and its slot is marked pending.
\<close>

theorem newRpcId_sentinel:
  assumes "0 < W" and "W < 2 ^ 64"
    and "valid W (init W, no_hist) cs"
    and "length cs + 1 < 2 ^ 64"
    and "run W (init W, no_hist) cs = Inr (s, h)"
  shows "(fst (newRpcId W s) = 0 \<longleftrightarrow> nextRpcId s - firstMissing s = of_nat W) \<and>
         (nextRpcId s - firstMissing s = of_nat W \<longleftrightarrow>
            unat (nextRpcId s) - unat (firstMissing s) = W) \<and>
         (nextRpcId s - firstMissing s \<noteq> of_nat W \<longrightarrow>
            fst (newRpcId W s) \<noteq> 0 \<and>
            (\<forall>j \<in> set (issued h). j < fst (newRpcId W s)) \<and>
            \<not> rpcs (snd (newRpcId W s)) ! slot W (fst (newRpcId W s)))"
proof -
  have inv: "window_inv W (s, h)" using assms by (rule reach_inv(1))
  note r = newRpcId_result [OF inv]
  show ?thesis
  proof (intro conjI impI)
    assume "nextRpcId s - firstMissing s \<noteq> of_nat W"
    from r(4) [OF this]
    show "fst (newRpcId W s) \<noteq> 0" "\<forall>j \<in> set (issued h). j < fst (newRpcId W s)"
      "\<not> rpcs (snd (newRpcId W s)) ! slot W (fst (newRpcId W s))"
      by blast+
  qed (rule r(1), rule r(2))
qed

theorem newRpcId_sentinel_witness:
  "valid 4 (init 4, no_hist) [NewRpcId, NewRpcId, RpcFinished 1] \<and>
   run 4 (init 4, no_hist) [NewRpcId, NewRpcId, RpcFinished 1] =
     Inr (\<lparr>firstMissing = 2, nextRpcId = 3, rpcs = [False, True, False, False]\<rparr>,
          \<lparr>issued = [2, 1], finished = [1]\<rparr>) \<and>
   fst (newRpcId 4 \<lparr>firstMissing = 2, nextRpcId = 3, rpcs = [False, True, False, False]\<rparr>) \<noteq> 0 \<and>
   (2 :: rpcid) < fst (newRpcId 4 \<lparr>firstMissing = 2, nextRpcId = 3, rpcs = [False, True, False, False]\<rparr>) \<and>
   (1 :: rpcid) < fst (newRpcId 4 \<lparr>firstMissing = 2, nextRpcId = 3, rpcs = [False, True, False, False]\<rparr>)"
proof -
  have v: "valid 4 (init 4, no_hist) [NewRpcId, NewRpcId, RpcFinished 1]"
    by code_simp
  have r: "run 4 (init 4, no_hist) [NewRpcId, NewRpcId, RpcFinished 1] =
     Inr (\<lparr>firstMissing = 2, nextRpcId = 3, rpcs = [False, True, False, False]\<rparr>,
          \<lparr>issued = [2, 1], finished = [1]\<rparr>)"
    by code_simp
  have l: "length [NewRpcId, NewRpcId, RpcFinished 1] + 1 < (2::nat) ^ 64" by simp
  have n: "nextRpcId \<lparr>firstMissing = 2, nextRpcId = 3, rpcs = [False, True, False, False]\<rparr>
      - firstMissing \<lparr>firstMissing = 2, nextRpcId = 3, rpcs = [False, True, False, False]\<rparr>
      \<noteq> (of_nat 4 :: rpcid)"
    by simp
  show ?thesis
    using v r n newRpcId_sentinel [OF _ _ v l r] by simp
qed

text \<open>
  Claim C3 says that \<^verbatim>\<open>rpcFinished\<close> rejects every id that is not pending. It does
  not. After one \<^verbatim>\<open>newRpcId\<close> with window size 4, the id 5 was never issued, yet
  \<^verbatim>\<open>rpcFinished(5)\<close> returns normally and sets slot 1, the slot of the pending id 1.
  Likewise, once id 1 is finished and the ids 2 to 5 are issued, \<^verbatim>\<open>rpcFinished(1)\<close>
  is accepted a second time and sets the slot of the pending id 5.
\<close>

theorem rpcFinished_non_pending_counterexample:
  "run 4 (init 4, no_hist) [NewRpcId] =
     Inr (\<lparr>firstMissing = 1, nextRpcId = 2, rpcs = [False, False, False, False]\<rparr>,
          \<lparr>issued = [1], finished = []\<rparr>) \<and>
   (5 :: rpcid) \<notin> set (pending \<lparr>issued = [1], finished = []\<rparr>) \<and>
   (1 :: rpcid) \<in> set (pending \<lparr>issued = [1], finished = []\<rparr>) \<and>
   rpcFinished 4 \<lparr>firstMissing = 1, nextRpcId = 2, rpcs = [False, False, False, False]\<rparr> 5 =
     Inr \<lparr>firstMissing = 1, nextRpcId = 2, rpcs = [False, True, False, False]\<rparr> \<and>
   run 4 (init 4, no_hist) [NewRpcId, RpcFinished 1, NewRpcId, NewRpcId, NewRpcId, NewRpcId] =
     Inr (\<lparr>firstMissing = 2, nextRpcId = 6, rpcs = [False, False, False, False]\<rparr>,
          \<lparr>issued = [5, 4, 3, 2, 1], finished = [1]\<rparr>) \<and>
   (1 :: rpcid) \<notin> set (pending \<lparr>issued = [5, 4, 3, 2, 1], finished = [1]\<rparr>) \<and>
   (5 :: rpcid) \<in> set (pending \<lparr>issued = [5, 4, 3, 2, 1], finished = [1]\<rparr>) \<and>
   rpcFinished 4 \<lparr>firstMissing = 2, nextRpcId = 6, rpcs = [False, False, False, False]\<rparr> 1 =
     Inr \<lparr>firstMissing = 2, nextRpcId = 6, rpcs = [False, True, False, False]\<rparr>"
proof (intro conjI)
  show "run 4 (init 4, no_hist) [NewRpcId] =
     Inr (\<lparr>firstMissing = 1, nextRpcId = 2, rpcs = [False, False, False, False]\<rparr>,
          \<lparr>issued = [1], finished = []\<rparr>)"
    by code_simp
  show "run 4 (init 4, no_hist) [NewRpcId, RpcFinished 1, NewRpcId, NewRpcId, NewRpcId, NewRpcId] =
     Inr (\<lparr>firstMissing = 2, nextRpcId = 6, rpcs = [False, False, False, False]\<rparr>,
          \<lparr>issued = [5, 4, 3, 2, 1], finished = [1]\<rparr>)"
    by code_simp
  show "rpcFinished 4 \<lparr>firstMissing = 1, nextRpcId = 2, rpcs = [False, False, False, False]\<rparr> 5 =
     Inr \<lparr>firstMissing = 1, nextRpcId = 2, rpcs = [False, True, False, False]\<rparr>"
    by code_simp
  show "rpcFinished 4 \<lparr>firstMissing = 2, nextRpcId = 6, rpcs = [False, False, False, False]\<rparr> 1 =
     Inr \<lparr>firstMissing = 2, nextRpcId = 6, rpcs = [False, True, False, False]\<rparr>"
    by code_simp
qed (simp_all add: pending_def)

text \<open>
  Claim C3, amended. \<^verbatim>\<open>rpcFinished(id)\<close> aborts on its assertion whenever the slot
  \<open>id mod windowSize\<close> is marked finished. In a state reached by a call sequence that
  respects the contract this is the case for every finished id whose slot has not been
  handed to a newer id (\<open>nextRpcId \<le> id + windowSize\<close>), which includes every finished
  id in \<open>[firstMissing, nextRpcId)\<close>.
\<close>

theorem rpcFinished_rejects_finished_slot:
  "(rpcs s ! slot W i \<longrightarrow> rpcFinished W s i = Inl AssertionFailed) \<and>
   (0 < W \<and> W < 2 ^ 64 \<and> valid W (init W, no_hist) cs \<and> length cs + 1 < 2 ^ 64 \<and>
    run W (init W, no_hist) cs = Inr (s, h) \<and>
    i \<in> set (finished h) \<and> unat (nextRpcId s) \<le> unat i + W \<longrightarrow>
    rpcFinished W s i = Inl AssertionFailed)"
proof (intro conjI impI)
  show "rpcFinished W s i = Inl AssertionFailed" if "rpcs s ! slot W i"
    using that by (simp add: rpcFinished_def)
next
  assume a: "0 < W \<and> W < 2 ^ 64 \<and> valid W (init W, no_hist) cs \<and> length cs + 1 < 2 ^ 64 \<and>
    run W (init W, no_hist) cs = Inr (s, h) \<and>
    i \<in> set (finished h) \<and> unat (nextRpcId s) \<le> unat i + W"
  then have "window_inv W (s, h)" using reach_inv(1) [of W cs "(s, h)"] by blast
  then have b: "window_base W (s, h)" by (simp add: window_inv_def)
  note d = window_baseD [OF b]
  from a d(8) have "i \<in> set (issued h)" by auto
  from d(10) [OF this] a have "rpcs s ! slot W i" by simp
  then show "rpcFinished W s i = Inl AssertionFailed" by (simp add: rpcFinished_def)
qed

theorem rpcFinished_rejects_finished_slot_witness:
  "valid 4 (init 4, no_hist) [NewRpcId, NewRpcId, RpcFinished 2] \<and>
   run 4 (init 4, no_hist) [NewRpcId, NewRpcId, RpcFinished 2] =
     Inr (\<lparr>firstMissing = 1, nextRpcId = 3, rpcs = [False, False, True, False]\<rparr>,
          \<lparr>issued = [2, 1], finished = [2]\<rparr>) \<and>
   rpcFinished 4 \<lparr>firstMissing = 1, nextRpcId = 3, rpcs = [False, False, True, False]\<rparr> 2 =
     Inl AssertionFailed"
proof -
  let ?s = "\<lparr>firstMissing = 1, nextRpcId = 3, rpcs = [False, False, True, False]\<rparr>"
  let ?h = "\<lparr>issued = [2, 1 :: rpcid], finished = [2]\<rparr>"
  let ?cs = "[NewRpcId, NewRpcId, RpcFinished 2]"
  have v: "valid 4 (init 4, no_hist) ?cs" by code_simp
  have r: "run 4 (init 4, no_hist) ?cs = Inr (?s, ?h)" by code_simp
  have l: "length ?cs + 1 < (2::nat) ^ 64" by simp
  have w: "0 < (4::nat)" "(4::nat) < 2 ^ 64" by simp_all
  have f: "(2 :: rpcid) \<in> set (finished ?h)" by simp
  have n: "unat (nextRpcId ?s) \<le> unat (2 :: rpcid) + 4" by simp
  show ?thesis
    using rpcFinished_rejects_finished_slot [of ?s 4 2 ?cs ?h, THEN conjunct2] w v r l f n
    by blast
qed

text \<open>
  Claim C4. When \<^verbatim>\<open>rpcFinished\<close> is given the pending id \<open>firstMissing\<close>, the
  watermark moves past it, every id it moves over was already finished, and it stops at
  \<open>nextRpcId\<close> or at an id that is still pending. With window size 4: after issuing
  1, 2, 3 and finishing 2 the watermark is 0, after finishing 1 it is 2, after finishing
  3 it is 3.
\<close>

theorem rpcFinished_advances_watermark:
  "(0 < W \<and> W < 2 ^ 64 \<and> valid W (init W, no_hist) cs \<and> length cs + 1 < 2 ^ 64 \<and>
    run W (init W, no_hist) cs = Inr (s, h) \<and> firstMissing s \<in> set (pending h) \<longrightarrow>
    (\<exists>s'. rpcFinished W s (firstMissing s) = Inr s' \<and>
       firstMissing s < firstMissing s' \<and> firstMissing s' \<le> nextRpcId s \<and>
       nextRpcId s' = nextRpcId s \<and>
       (\<forall>j. firstMissing s < j \<and> j < firstMissing s' \<longrightarrow>
            j \<in> set (finished h) \<and> rpcs s ! slot W j) \<and>
       (firstMissing s' = nextRpcId s \<or>
        firstMissing s' \<in> set (pending h) \<and> \<not> rpcs s ! slot W (firstMissing s')))) \<and>
   ack_after 4 [NewRpcId, NewRpcId, NewRpcId, RpcFinished 2] = Inr 0 \<and>
   ack_after 4 [NewRpcId, NewRpcId, NewRpcId, RpcFinished 2, RpcFinished 1] = Inr 2 \<and>
   ack_after 4 [NewRpcId, NewRpcId, NewRpcId, RpcFinished 2, RpcFinished 1, RpcFinished 3]
     = Inr 3"
proof (intro conjI impI)
  assume a: "0 < W \<and> W < 2 ^ 64 \<and> valid W (init W, no_hist) cs \<and> length cs + 1 < 2 ^ 64 \<and>
    run W (init W, no_hist) cs = Inr (s, h) \<and> firstMissing s \<in> set (pending h)"
  then have "window_inv W (s, h)" using reach_inv(1) [of W cs "(s, h)"] by blast
  moreover from a have "firstMissing s \<in> set (pending h)" by simp
  ultimately show "\<exists>s'. rpcFinished W s (firstMissing s) = Inr s' \<and>
       firstMissing s < firstMissing s' \<and> firstMissing s' \<le> nextRpcId s \<and>
       nextRpcId s' = nextRpcId s \<and>
       (\<forall>j. firstMissing s < j \<and> j < firstMissing s' \<longrightarrow>
            j \<in> set (finished h) \<and> rpcs s ! slot W j) \<and>
       (firstMissing s' = nextRpcId s \<or>
        firstMissing s' \<in> set (pending h) \<and> \<not> rpcs s ! slot W (firstMissing s'))"
    by (rule rpcFinished_first_missing)
next
  show "ack_after 4 [NewRpcId, NewRpcId, NewRpcId, RpcFinished 2] = Inr 0"
    by code_simp
  show "ack_after 4 [NewRpcId, NewRpcId, NewRpcId, RpcFinished 2, RpcFinished 1] = Inr 2"
    by code_simp
  show "ack_after 4 [NewRpcId, NewRpcId, NewRpcId, RpcFinished 2, RpcFinished 1, RpcFinished 3]
     = Inr 3"
    by code_simp
qed

theorem rpcFinished_advances_watermark_witness:
  "valid 4 (init 4, no_hist) [NewRpcId, NewRpcId, NewRpcId, RpcFinished 2] \<and>
   run 4 (init 4, no_hist) [NewRpcId, NewRpcId, NewRpcId, RpcFinished 2] =
     Inr (\<lparr>firstMissing = 1, nextRpcId = 4, rpcs = [False, False, True, False]\<rparr>,
          \<lparr>issued = [3, 2, 1], finished = [2]\<rparr>) \<and>
   (1 :: rpcid) \<in> set (pending \<lparr>issued = [3, 2, 1], finished = [2]\<rparr>) \<and>
   (\<exists>s'. rpcFinished 4 \<lparr>firstMissing = 1, nextRpcId = 4, rpcs = [False, False, True, False]\<rparr> 1
            = Inr s' \<and>
         1 < firstMissing s' \<and> firstMissing s' \<le> 4 \<and>
         (firstMissing s' = 4 \<or>
          firstMissing s' \<in> set (pending \<lparr>issued = [3, 2, 1], finished = [2]\<rparr>)))"
proof -
  let ?s = "\<lparr>firstMissing = 1, nextRpcId = 4, rpcs = [False, False, True, False]\<rparr>"
  let ?h = "\<lparr>issued = [3, 2, 1 :: rpcid], finished = [2]\<rparr>"
  let ?cs = "[NewRpcId, NewRpcId, NewRpcId, RpcFinished 2]"
  have v: "valid 4 (init 4, no_hist) ?cs" by code_simp
  have r: "run 4 (init 4, no_hist) ?cs = Inr (?s, ?h)" by code_simp
  have p: "firstMissing ?s \<in> set (pending ?h)" by (simp add: pending_def)
  have l: "length ?cs + 1 < (2::nat) ^ 64" by simp
  have w: "0 < (4::nat)" "(4::nat) < 2 ^ 64" by simp_all
  have "\<exists>s'. rpcFinished 4 ?s (firstMissing ?s) = Inr s' \<and>
       firstMissing ?s < firstMissing s' \<and> firstMissing s' \<le> nextRpcId ?s \<and>
       nextRpcId s' = nextRpcId ?s \<and>
       (\<forall>j. firstMissing ?s < j \<and> j < firstMissing s' \<longrightarrow>
            j \<in> set (finished ?h) \<and> rpcs ?s ! slot 4 j) \<and>
       (firstMissing s' = nextRpcId ?s \<or>
        firstMissing s' \<in> set (pending ?h) \<and> \<not> rpcs ?s ! slot 4 (firstMissing s'))"
    using rpcFinished_advances_watermark [of 4 ?cs ?s ?h, THEN conjunct1] w v r p l
    by blast
  then obtain s' where "rpcFinished 4 ?s 1 = Inr s'" "1 < firstMissing s'"
    "firstMissing s' \<le> 4" "firstMissing s' = 4 \<or> firstMissing s' \<in> set (pending ?h)"
    by auto
  then show ?thesis using v r p by auto
qed

text \<open>
  Claim C5. Each call that respects the contract takes a state satisfying the window
  invariant to a state satisfying it, without aborting: \<open>firstMissing \<le> nextRpcId\<close>,
  \<open>nextRpcId - firstMissing \<le> windowSize\<close>, and for every id in
  \<open>[firstMissing, nextRpcId)\<close> the slot \<open>id mod windowSize\<close> is set exactly when the
  id is finished and clear exactly when it is pending. (\<^verbatim>\<open>ackId\<close> only reads the
  state.) The counter is assumed not to be at its last value.
\<close>

theorem window_invariants_preserved:
  assumes "window_inv W c" and "valid_call c x"
    and "unat (nextRpcId (fst c)) + 1 < 2 ^ 64"
  shows "\<exists>s' h'. step W c x = Inr (s', h') \<and> window_inv W (s', h') \<and>
           firstMissing s' \<le> nextRpcId s' \<and>
           unat (nextRpcId s') - unat (firstMissing s') \<le> W \<and>
           (\<forall>i. firstMissing s' \<le> i \<and> i < nextRpcId s' \<longrightarrow>
              (rpcs s' ! slot W i \<longleftrightarrow> i \<in> set (finished h')) \<and>
              (\<not> rpcs s' ! slot W i \<longleftrightarrow> i \<in> set (pending h')))"
proof -
  from step_inv [OF assms] obtain c' where c': "step W c x = Inr c'" "window_inv W c'"
    by blast
  obtain s' h' where sh: "c' = (s', h')" by (cases c')
  show ?thesis
    using c' window_inv_claims [of W s' h'] unfolding sh by blast
qed

theorem window_invariants_preserved_witness:
  "window_inv 4 (\<lparr>firstMissing = 1, nextRpcId = 4, rpcs = [False, False, True, False]\<rparr>,
                 \<lparr>issued = [3, 2, 1], finished = [2]\<rparr>) \<and>
   valid_call (\<lparr>firstMissing = 1, nextRpcId = 4, rpcs = [False, False, True, False]\<rparr>,
               \<lparr>issued = [3, 2, 1], finished = [2]\<rparr>) (RpcFinished 1) \<and>
   step 4 (\<lparr>firstMissing = 1, nextRpcId = 4, rpcs = [False, False, True, False]\<rparr>,
           \<lparr>issued = [3, 2, 1], finished = [2]\<rparr>) (RpcFinished 1) =
     Inr (\<lparr>firstMissing = 3, nextRpcId = 4, rpcs = [False, True, True, False]\<rparr>,
          \<lparr>issued = [3, 2, 1], finished = [1, 2]\<rparr>) \<and>
   (\<exists>s' h'. step 4 (\<lparr>firstMissing = 1, nextRpcId = 4, rpcs = [False, False, True, False]\<rparr>,
                    \<lparr>issued = [3, 2, 1], finished = [2]\<rparr>) (RpcFinished 1) = Inr (s', h') \<and>
           window_inv 4 (s', h') \<and>
           firstMissing s' \<le> nextRpcId s' \<and>
           unat (nextRpcId s') - unat (firstMissing s') \<le> 4 \<and>
           (\<forall>i. firstMissing s' \<le> i \<and> i < nextRpcId s' \<longrightarrow>
              (rpcs s' ! slot 4 i \<longleftrightarrow> i \<in> set (finished h')) \<and>
              (\<not> rpcs s' ! slot 4 i \<longleftrightarrow> i \<in> set (pending h')))) \<and>
   (rpcs \<lparr>firstMissing = 3, nextRpcId = 4, rpcs = [False, True, True, False]\<rparr> ! slot 4 3
      \<longleftrightarrow> (3 :: rpcid) \<in> set (finished \<lparr>issued = [3, 2, 1], finished = [1, 2]\<rparr>)) \<and>
   (3 :: rpcid) \<in> set (pending \<lparr>issued = [3, 2, 1], finished = [1, 2]\<rparr>)"
proof -
  let ?s = "\<lparr>firstMissing = 1, nextRpcId = 4, rpcs = [False, False, True, False]\<rparr>"
  let ?h = "\<lparr>issued = [3, 2, 1 :: rpcid], finished = [2]\<rparr>"
  let ?s1 = "\<lparr>firstMissing = 3, nextRpcId = 4, rpcs = [False, True, True, False]\<rparr>"
  let ?h1 = "\<lparr>issued = [3, 2, 1 :: rpcid], finished = [1, 2]\<rparr>"
  let ?cs = "[NewRpcId, NewRpcId, NewRpcId, RpcFinished 2]"
  have v0: "valid 4 (init 4, no_hist) ?cs" by code_simp
  have r0: "run 4 (init 4, no_hist) ?cs = Inr (?s, ?h)" by code_simp
  have l0: "length ?cs + 1 < (2::nat) ^ 64" by simp
  have w0: "0 < (4::nat)" "(4::nat) < 2 ^ 64" by simp_all
  have i: "window_inv 4 (?s, ?h)" using w0 v0 l0 r0 by (rule reach_inv(1))
  have v: "valid_call (?s, ?h) (RpcFinished 1)" by (simp add: pending_def)
  have n: "unat (nextRpcId (fst (?s, ?h))) + 1 < (2::nat) ^ 64" by simp
  have st: "step 4 (?s, ?h) (RpcFinished 1) = Inr (?s1, ?h1)" by code_simp
  have E: "\<exists>s' h'. step 4 (?s, ?h) (RpcFinished 1) = Inr (s', h') \<and>
           window_inv 4 (s', h') \<and>
           firstMissing s' \<le> nextRpcId s' \<and>
           unat (nextRpcId s') - unat (firstMissing s') \<le> 4 \<and>
           (\<forall>i. firstMissing s' \<le> i \<and> i < nextRpcId s' \<longrightarrow>
              (rpcs s' ! slot 4 i \<longleftrightarrow> i \<in> set (finished h')) \<and>
              (\<not> rpcs s' ! slot 4 i \<longleftrightarrow> i \<in> set (pending h')))"
    using i v n by (rule window_invariants_preserved)
  then obtain s' h' where sh: "step 4 (?s, ?h) (RpcFinished 1) = Inr (s', h')"
    and bm: "\<forall>i. firstMissing s' \<le> i \<and> i < nextRpcId s' \<longrightarrow>
              (rpcs s' ! slot 4 i \<longleftrightarrow> i \<in> set (finished h')) \<and>
              (\<not> rpcs s' ! slot 4 i \<longleftrightarrow> i \<in> set (pending h'))"
    by blast
  from sh st have eq: "s' = ?s1" "h' = ?h1" by simp_all
  have rg: "firstMissing ?s1 \<le> (3 :: rpcid) \<and> (3 :: rpcid) < nextRpcId ?s1" by simp
  from bm [unfolded eq, rule_format, OF rg]
  have b3: "rpcs ?s1 ! slot 4 3 \<longleftrightarrow> (3 :: rpcid) \<in> set (finished ?h1)"
    and p3': "\<not> rpcs ?s1 ! slot 4 3 \<longleftrightarrow> (3 :: rpcid) \<in> set (pending ?h1)"
    by blast+
  have "\<not> rpcs ?s1 ! slot 4 3" by (simp add: slot_def)
  with p3' have p3: "(3 :: rpcid) \<in> set (pending ?h1)" by blast
  from i v st E b3 p3 show ?thesis by (intro conjI)
qed

section \<open>Properties of BackupClient\<close>

lemma recv_after_send:
  assumes "inbox (net h) = (l, r) # rest"
  shows "recvRPC (sendRPC req h) =
     (if l \<noteq> unat (hdr_len r) then Inl AssertFailed
      else if hdr_type r = BACKUP_RPC_ERROR_RESP
           then (case body r of
                   error_resp message \<Rightarrow>
                     (case c_str message of
                        Some m \<Rightarrow> Inl (BackupRPCException m)
                      | None \<Rightarrow> Inl OutOfBounds)
                 | _ \<Rightarrow> Inl WrongBody)
           else Inr r,
      h\<lparr>net := \<lparr>sent = sent (net h) @ [(req, unat (hdr_len req))], inbox = rest\<rparr>\<rparr>)"
  using assms
  by (simp add: recvRPC_def sendRPC_def Let_def split: resp_body.splits option.splits)

lemma recv_desync:
  assumes "inbox (net h) = (l, r) # rest" "l \<noteq> unat (hdr_len r)"
  shows "fst (recvRPC (sendRPC req h)) = Inl AssertFailed"
  using assms by (simp add: recv_after_send)

lemma c_str_terminated:
  assumes "CHR 0x00 \<notin> set m"
  shows "c_str (m @ CHR 0x00 # junk) = Some m"
proof -
  have "takeWhile (\<lambda>c. c \<noteq> CHR 0x00) (m @ CHR 0x00 # junk) = m"
    using assms by (induction m) auto
  then show ?thesis by (simp add: c_str_def)
qed

lemma c_str_cut: "c_str bs = Some m \<Longrightarrow> CHR 0x00 \<notin> set m \<and> (\<exists>junk. bs = m @ CHR 0x00 # junk)"
proof -
  assume a: "c_str bs = Some m"
  then have z: "CHR 0x00 \<in> set bs" and m: "m = takeWhile (\<lambda>c. c \<noteq> CHR 0x00) bs"
    by (auto simp: c_str_def split: if_splits)
  from z have "dropWhile (\<lambda>c. c \<noteq> CHR 0x00) bs \<noteq> []" by (simp add: dropWhile_eq_Nil_conv)
  then obtain x junk where d: "dropWhile (\<lambda>c. c \<noteq> CHR 0x00) bs = x # junk"
    by (cases "dropWhile (\<lambda>c. c \<noteq> CHR 0x00) bs") auto
  then have "x = CHR 0x00" using hd_dropWhile [of "\<lambda>c. c \<noteq> CHR 0x00" bs] by auto
  with d m have "bs = m @ CHR 0x00 # junk"
    using takeWhile_dropWhile_id [of "\<lambda>c. c \<noteq> CHR 0x00" bs] by simp
  moreover have "CHR 0x00 \<notin> set m" unfolding m by (auto dest: set_takeWhileD)
  ultimately show ?thesis by blast
qed

lemma recv_error:
  assumes "inbox (net h) = (l, r) # rest" "l = unat (hdr_len r)"
    "hdr_type r = BACKUP_RPC_ERROR_RESP" "body r = error_resp (m @ CHR 0x00 # junk)"
    "CHR 0x00 \<notin> set m"
  shows "fst (recvRPC (sendRPC req h)) = Inl (BackupRPCException m)"
  using assms(1-4) c_str_terminated [OF assms(5), of junk] by (simp add: recv_after_send)

lemma call_plain_fst:
  "fst (recvRPC (sendRPC req h)) = Inl e \<Longrightarrow> fst (call_plain req h) = Inl e"
  by (cases "recvRPC (sendRPC req h)") (auto simp: call_plain_def)

lemma unat_of_nat_le: "unat (of_nat n :: 'a::len word) \<le> n"
  by (simp add: unat_of_nat)

lemma write_fits:
  assumes "BACKUP_RPC_WRITE_REQ_LEN_WODATA K + unat len \<le> MAX_RPC_LEN K"
    "unat len \<le> length dat"
  shows "writeSegment K segNum offset dat len h =
     call_plain \<lparr>hdr_type = BACKUP_RPC_WRITE_REQ,
                 hdr_len = of_nat (BACKUP_RPC_WRITE_REQ_LEN_WODATA K + unat len),
                 body = write_req segNum offset len (take (unat len) dat)\<rparr> h"
proof -
  have "unat (of_nat (BACKUP_RPC_WRITE_REQ_LEN_WODATA K + unat len) :: u32)
      \<le> BACKUP_RPC_WRITE_REQ_LEN_WODATA K + unat len"
    by (rule unat_of_nat_le)
  then show ?thesis using assms by (simp add: writeSegment_def Let_def)
qed

lemma getSegmentList_fail:
  "fst (recvRPC (sendRPC \<lparr>hdr_type = BACKUP_RPC_GETSEGMENTLIST_REQ,
                             hdr_len = of_nat (BACKUP_RPC_GETSEGMENTLIST_REQ_LEN K),
                             body = getsegmentlist_req\<rparr> h)) = Inl e \<Longrightarrow>
   fst (getSegmentList K buf maxSize h) = Inl e \<and> fst (snd (getSegmentList K buf maxSize h)) = buf"
  by (auto simp: getSegmentList_def split: prod.splits sum.splits)

lemma getSegmentMetadata_fail:
  "fst (recvRPC (sendRPC \<lparr>hdr_type = BACKUP_RPC_GETSEGMENTMETADATA_REQ,
                             hdr_len = of_nat (BACKUP_RPC_GETSEGMENTMETADATA_REQ_LEN K),
                             body = getsegmentmetadata_req segNum\<rparr> h)) = Inl e \<Longrightarrow>
   fst (getSegmentMetadata K segNum buf maxSize h) = Inl e \<and>
   fst (snd (getSegmentMetadata K segNum buf maxSize h)) = buf"
  by (auto simp: getSegmentMetadata_def split: prod.splits sum.splits)

lemma retrieveSegment_fail:
  "fst (recvRPC (sendRPC \<lparr>hdr_type = BACKUP_RPC_RETRIEVE_REQ,
                             hdr_len = of_nat (BACKUP_RPC_RETRIEVE_REQ_LEN K),
                             body = retrieve_req segNum\<rparr> h)) = Inl e \<Longrightarrow>
   fst (retrieveSegment K segNum buf h) = Inl e \<and>
   fst (snd (retrieveSegment K segNum buf h)) = buf"
  by (auto simp: retrieveSegment_def split: prod.splits sum.splits)

lemma recvRPC_sent: "sent (net (snd (recvRPC h))) = sent (net h)"
  by (simp add: recvRPC_def Let_def
      split: list.splits prod.splits resp_body.splits option.splits)

lemma call_plain_snd: "snd (call_plain req h) = snd (recvRPC (sendRPC req h))"
  by (cases "recvRPC (sendRPC req h)") (auto simp: call_plain_def split: sum.splits)

lemma call_plain_sent:
  "sent (net (snd (call_plain req h))) = sent (net h) @ [(req, unat (hdr_len req))]"
  by (simp add: call_plain_snd recvRPC_sent) (simp add: sendRPC_def)

text \<open>
  Where overhead plus \<open>len\<close> fits the 32-bit field, the check of \<^verbatim>\<open>writeSegment\<close>
  is the bound on the frame, and a request that passes it is handed to \<^verbatim>\<open>Send\<close> once,
  with that length.
\<close>

lemma writeSegment_within_32_bits:
  assumes "BACKUP_RPC_WRITE_REQ_LEN_WODATA K + unat len < 2 ^ 32"
  shows "MAX_RPC_LEN K < BACKUP_RPC_WRITE_REQ_LEN_WODATA K + unat len \<Longrightarrow>
         writeSegment K segNum offset dat len h =
           (Inl (BackupRPCException ''Write RPC would be too long''), h)"
    and "BACKUP_RPC_WRITE_REQ_LEN_WODATA K + unat len \<le> MAX_RPC_LEN K \<Longrightarrow>
         unat len \<le> length dat \<Longrightarrow>
         sent (net (snd (writeSegment K segNum offset dat len h))) =
           sent (net h) @
             [(\<lparr>hdr_type = BACKUP_RPC_WRITE_REQ,
                hdr_len = of_nat (BACKUP_RPC_WRITE_REQ_LEN_WODATA K + unat len),
                body = write_req segNum offset len (take (unat len) dat)\<rparr>,
               BACKUP_RPC_WRITE_REQ_LEN_WODATA K + unat len)]"
proof -
  have u: "unat (of_nat (BACKUP_RPC_WRITE_REQ_LEN_WODATA K + unat len) :: u32)
      = BACKUP_RPC_WRITE_REQ_LEN_WODATA K + unat len"
    using assms by (simp only: unat_of_nat) simp
  show "writeSegment K segNum offset dat len h =
           (Inl (BackupRPCException ''Write RPC would be too long''), h)"
    if "MAX_RPC_LEN K < BACKUP_RPC_WRITE_REQ_LEN_WODATA K + unat len"
    using that u unfolding writeSegment_def Let_def by (simp only: if_True)
  show "sent (net (snd (writeSegment K segNum offset dat len h))) =
           sent (net h) @
             [(\<lparr>hdr_type = BACKUP_RPC_WRITE_REQ,
                hdr_len = of_nat (BACKUP_RPC_WRITE_REQ_LEN_WODATA K + unat len),
                body = write_req segNum offset len (take (unat len) dat)\<rparr>,
               BACKUP_RPC_WRITE_REQ_LEN_WODATA K + unat len)]"
    if "BACKUP_RPC_WRITE_REQ_LEN_WODATA K + unat len \<le> MAX_RPC_LEN K"
      "unat len \<le> length dat"
    unfolding write_fits [OF that(1,2)] call_plain_sent
    using u by (simp del: of_nat_add)
qed

subsection \<open>The claims about BackupClient\<close>

text \<open>
  Claim C6 asks \<^verbatim>\<open>writeSegment\<close> to throw whenever header plus payload exceed
  \<^verbatim>\<open>MAX_RPC_LEN\<close>. The sum is stored in the 32-bit \<^verbatim>\<open>hdr.len\<close> before it is
  compared: with \<open>len = 0xFFFFFFFF\<close> it wraps to the fixed overhead minus one, the
  comparison passes, nothing is thrown, and the \<^verbatim>\<open>memcpy\<close> of \<open>len\<close> bytes runs past
  \<^verbatim>\<open>reqbuf\<close>. (For sums below \<open>2 ^ 32\<close> the check is the bound:
  \<open>writeSegment_within_32_bits\<close>.)
\<close>

theorem writeSegment_length_wraps:
  assumes "1 \<le> BACKUP_RPC_WRITE_REQ_LEN_WODATA K"
    and "BACKUP_RPC_WRITE_REQ_LEN_WODATA K \<le> MAX_RPC_LEN K"
    and "MAX_RPC_LEN K < 2 ^ 32"
  shows "MAX_RPC_LEN K < BACKUP_RPC_WRITE_REQ_LEN_WODATA K + unat (4294967295 :: u32) \<and>
         writeSegment K segNum offset dat 4294967295 h = (Inl OutOfBounds, h)"
proof -
  let ?w = "BACKUP_RPC_WRITE_REQ_LEN_WODATA K"
  have ul: "unat (4294967295 :: u32) = 4294967295" by simp
  have big: "MAX_RPC_LEN K < ?w + unat (4294967295 :: u32)"
    using assms by (simp add: ul)
  have "?w + 4294967295 = (?w - 1) + 1 * 2 ^ 32" using assms(1) by simp
  then have "(?w + 4294967295) mod 2 ^ 32 = (?w - 1) mod 2 ^ 32"
    by (simp only: mod_mult_self1)
  also have "\<dots> = ?w - 1" using assms(2,3) by simp
  finally have m: "(?w + 4294967295) mod 2 ^ 32 = ?w - 1" .
  have "unat (of_nat (?w + unat (4294967295 :: u32)) :: u32) = (?w + 4294967295) mod 2 ^ 32"
    by (simp only: unat_of_nat ul) simp
  then have u: "unat (of_nat (?w + unat (4294967295 :: u32)) :: u32) = ?w - 1"
    using m by simp
  have le: "\<not> MAX_RPC_LEN K < ?w - 1" using assms(2) by simp
  have "writeSegment K segNum offset dat 4294967295 h = (Inl OutOfBounds, h)"
    unfolding writeSegment_def Let_def u using le big by (simp only: if_False) simp
  with big show ?thesis by (intro conjI)
qed

theorem writeSegment_length_wraps_witness:
  "1 \<le> BACKUP_RPC_WRITE_REQ_LEN_WODATA wire0 \<and>
   BACKUP_RPC_WRITE_REQ_LEN_WODATA wire0 \<le> MAX_RPC_LEN wire0 \<and>
   MAX_RPC_LEN wire0 < 2 ^ 32 \<and>
   MAX_RPC_LEN wire0 < BACKUP_RPC_WRITE_REQ_LEN_WODATA wire0 + unat (4294967295 :: u32) \<and>
   writeSegment wire0 1 0 [] 4294967295 \<lparr>net = \<lparr>sent = [], inbox = []\<rparr>\<rparr> =
     (Inl OutOfBounds, \<lparr>net = \<lparr>sent = [], inbox = []\<rparr>\<rparr>)"
proof -
  have a: "1 \<le> BACKUP_RPC_WRITE_REQ_LEN_WODATA wire0" by (simp add: wire0_def)
  have b: "BACKUP_RPC_WRITE_REQ_LEN_WODATA wire0 \<le> MAX_RPC_LEN wire0" by (simp add: wire0_def)
  have c: "MAX_RPC_LEN wire0 < 2 ^ 32" by (simp add: wire0_def)
  note t = writeSegment_length_wraps [OF a b c, where segNum = 1 and offset = 0 and dat = "[]"
      and h = "\<lparr>net = \<lparr>sent = [], inbox = []\<rparr>\<rparr>"]
  from a b c t [THEN conjunct1] t [THEN conjunct2] show ?thesis by (intro conjI)
qed

text \<open>
  Claim C7. When the response is a list (or metadata) response: if \<open>maxSize\<close> is
  smaller than the count it reports, \<^verbatim>\<open>getSegmentList\<close> (\<^verbatim>\<open>getSegmentMetadata\<close>)
  throws and the caller's buffer is as before; otherwise, the frame holding the entries
  it reports and the buffer having room for them, the first entries of the buffer are
  the reported ones, the rest is as before, and the count is returned.
\<close>

theorem list_capacity_policy:
  "(inbox (net h) = (l, r) # rest \<and> l = unat (hdr_len r) \<and>
    hdr_type r \<noteq> BACKUP_RPC_ERROR_RESP \<and> body r = getsegmentlist_resp tmpCount segs \<longrightarrow>
      (maxSize < tmpCount \<longrightarrow>
         fst (getSegmentList K ids maxSize h) =
           Inl (BackupRPCException ''Provided a segment id buffer that was too small'') \<and>
         fst (snd (getSegmentList K ids maxSize h)) = ids) \<and>
      (\<not> maxSize < tmpCount \<and> unat tmpCount \<le> length segs \<and> unat tmpCount \<le> length ids \<longrightarrow>
         fst (getSegmentList K ids maxSize h) = Inr tmpCount \<and>
         fst (snd (getSegmentList K ids maxSize h)) =
           take (unat tmpCount) segs @ drop (unat tmpCount) ids)) \<and>
   (inbox (net h) = (l, r) # rest \<and> l = unat (hdr_len r) \<and>
    hdr_type r \<noteq> BACKUP_RPC_ERROR_RESP \<and> body r = getsegmentmetadata_resp tmpCount objs \<longrightarrow>
      (maxSize < tmpCount \<longrightarrow>
         fst (getSegmentMetadata K segNum metas maxSize h) =
           Inl (BackupRPCException ''Provided a segment id buffer that was too small'') \<and>
         fst (snd (getSegmentMetadata K segNum metas maxSize h)) = metas) \<and>
      (\<not> maxSize < tmpCount \<and> unat tmpCount \<le> length objs \<and> unat tmpCount \<le> length metas \<longrightarrow>
         fst (getSegmentMetadata K segNum metas maxSize h) = Inr tmpCount \<and>
         fst (snd (getSegmentMetadata K segNum metas maxSize h)) =
           take (unat tmpCount) objs @ drop (unat tmpCount) metas))"
  by (simp add: getSegmentList_def getSegmentMetadata_def recv_after_send memcpy_def)

theorem list_capacity_policy_witness:
  "fst (getSegmentList wire0 [7, 7] 1
          (host_with 28 \<lparr>hdr_type = BACKUP_RPC_GETSEGMENTLIST_RESP, hdr_len = 28,
                          body = getsegmentlist_resp 2 [5, 6]\<rparr>)) =
     Inl (BackupRPCException ''Provided a segment id buffer that was too small'') \<and>
   fst (snd (getSegmentList wire0 [7, 7] 1
          (host_with 28 \<lparr>hdr_type = BACKUP_RPC_GETSEGMENTLIST_RESP, hdr_len = 28,
                          body = getsegmentlist_resp 2 [5, 6]\<rparr>))) = [7, 7] \<and>
   fst (getSegmentList wire0 [7, 7, 7] 3
          (host_with 28 \<lparr>hdr_type = BACKUP_RPC_GETSEGMENTLIST_RESP, hdr_len = 28,
                          body = getsegmentlist_resp 2 [5, 6]\<rparr>)) = Inr 2 \<and>
   fst (snd (getSegmentList wire0 [7, 7, 7] 3
          (host_with 28 \<lparr>hdr_type = BACKUP_RPC_GETSEGMENTLIST_RESP, hdr_len = 28,
                          body = getsegmentlist_resp 2 [5, 6]\<rparr>))) = [5, 6, 7]"
proof -
  let ?r = "\<lparr>hdr_type = BACKUP_RPC_GETSEGMENTLIST_RESP, hdr_len = 28,
            body = getsegmentlist_resp 2 [5, 6]\<rparr>"
  have pre: "inbox (net (host_with 28 ?r)) = (28, ?r) # [] \<and> 28 = unat (hdr_len ?r) \<and>
    hdr_type ?r \<noteq> BACKUP_RPC_ERROR_RESP \<and> body ?r = getsegmentlist_resp 2 [5, 6]"
    by (simp add: host_with_def)
  have small: "(1 :: u32) < 2" by simp
  have fits: "\<not> (3 :: u32) < 2 \<and> unat (2 :: u32) \<le> length [5, 6 :: u64] \<and>
      unat (2 :: u32) \<le> length [7, 7, 7 :: u64]"
    by simp
  have cp: "take (unat (2 :: u32)) [5, 6 :: u64] @ drop (unat (2 :: u32)) [7, 7, 7] = [5, 6, 7]"
    by simp
  note t1 = list_capacity_policy [where h = "host_with 28 ?r" and l = 28 and r = ?r
      and rest = "[]" and tmpCount = 2 and segs = "[5, 6]" and maxSize = 1 and K = wire0
      and ids = "[7, 7]", THEN conjunct1, THEN mp, OF pre, THEN conjunct1, THEN mp, OF small]
  note t2 = list_capacity_policy [where h = "host_with 28 ?r" and l = 28 and r = ?r
      and rest = "[]" and tmpCount = 2 and segs = "[5, 6]" and maxSize = 3 and K = wire0
      and ids = "[7, 7, 7]", THEN conjunct1, THEN mp, OF pre, THEN conjunct2, THEN mp, OF fits]
  from t1 [THEN conjunct1] t1 [THEN conjunct2] t2 [THEN conjunct1]
    t2 [THEN conjunct2, unfolded cp]
  show ?thesis by (intro conjI)
qed

text \<open>
  Claim C8. Whatever the operation, when the length \<^verbatim>\<open>Recv\<close> returns differs
  from the length in the header of the response, the call ends in the failed assertion
  of \<^verbatim>\<open>recvRPC\<close>; it neither returns normally nor touches the caller's buffer.
  (For \<^verbatim>\<open>writeSegment\<close> a response is received only if the request was sent.)
\<close>

theorem length_mismatch_is_fatal:
  assumes "inbox (net h) = (l, r) # rest" and "l \<noteq> unat (hdr_len r)"
  shows "fst (recvRPC (sendRPC req h)) = Inl AssertFailed \<and>
    fst (heartbeat K h) = Inl AssertFailed \<and>
    (BACKUP_RPC_WRITE_REQ_LEN_WODATA K + unat len \<le> MAX_RPC_LEN K \<and> unat len \<le> length dat
       \<longrightarrow> fst (writeSegment K segNum offset dat len h) = Inl AssertFailed) \<and>
    fst (commitSegment K segNum h) = Inl AssertFailed \<and>
    fst (freeSegment K segNum h) = Inl AssertFailed \<and>
    fst (getSegmentList K ids maxSize h) = Inl AssertFailed \<and>
    fst (snd (getSegmentList K ids maxSize h)) = ids \<and>
    fst (getSegmentMetadata K segNum metas maxSize h) = Inl AssertFailed \<and>
    fst (snd (getSegmentMetadata K segNum metas maxSize h)) = metas \<and>
    fst (retrieveSegment K segNum buf h) = Inl AssertFailed \<and>
    fst (snd (retrieveSegment K segNum buf h)) = buf"
proof -
  note d = recv_desync [OF assms]
  show ?thesis
    using d getSegmentList_fail [OF d] getSegmentMetadata_fail [OF d] retrieveSegment_fail [OF d]
    by (simp add: heartbeat_def commitSegment_def freeSegment_def write_fits call_plain_fst)
qed

theorem length_mismatch_is_fatal_witness:
  "inbox (net (host_with 3 \<lparr>hdr_type = BACKUP_RPC_GETSEGMENTLIST_RESP, hdr_len = 20,
                             body = getsegmentlist_resp 1 [5]\<rparr>)) =
     [(3, \<lparr>hdr_type = BACKUP_RPC_GETSEGMENTLIST_RESP, hdr_len = 20,
           body = getsegmentlist_resp 1 [5]\<rparr>)] \<and>
   3 \<noteq> unat (20 :: u32) \<and>
   fst (heartbeat wire0 (host_with 3 \<lparr>hdr_type = BACKUP_RPC_GETSEGMENTLIST_RESP, hdr_len = 20,
                             body = getsegmentlist_resp 1 [5]\<rparr>)) = Inl AssertFailed \<and>
   fst (getSegmentList wire0 [7, 7] 2
          (host_with 3 \<lparr>hdr_type = BACKUP_RPC_GETSEGMENTLIST_RESP, hdr_len = 20,
                             body = getsegmentlist_resp 1 [5]\<rparr>)) = Inl AssertFailed \<and>
   fst (snd (getSegmentList wire0 [7, 7] 2
          (host_with 3 \<lparr>hdr_type = BACKUP_RPC_GETSEGMENTLIST_RESP, hdr_len = 20,
                             body = getsegmentlist_resp 1 [5]\<rparr>))) = [7, 7]"
proof -
  let ?r = "\<lparr>hdr_type = BACKUP_RPC_GETSEGMENTLIST_RESP, hdr_len = 20,
            body = getsegmentlist_resp 1 [5]\<rparr>"
  have i: "inbox (net (host_with 3 ?r)) = [(3, ?r)]" by (simp add: host_with_def)
  have n: "3 \<noteq> unat (hdr_len ?r)" by simp
  have n': "3 \<noteq> unat (20 :: u32)" by simp
  note t = length_mismatch_is_fatal [OF i n, where K = wire0 and ids = "[7, 7]" and maxSize = 2
      and req = "\<lparr>hdr_type = BACKUP_RPC_HEARTBEAT_REQ, hdr_len = 8, body = heartbeat_req\<rparr>"
      and len = 0 and dat = "[]" and segNum = 0 and offset = 0 and metas = "[]" and buf = "[]"]
  have a: "fst (heartbeat wire0 (host_with 3 ?r)) = Inl AssertFailed"
    using t by (elim conjE)
  have b: "fst (getSegmentList wire0 [7, 7] 2 (host_with 3 ?r)) = Inl AssertFailed"
    using t by (elim conjE)
  have c: "fst (snd (getSegmentList wire0 [7, 7] 2 (host_with 3 ?r))) = [7, 7]"
    using t by (elim conjE)
  from i n' a b c show ?thesis by (intro conjI)
qed

text \<open>
  Claim C9. \<^verbatim>\<open>addHost\<close> on a client without a host registers one host holding
  the transport; on a client with a host it throws and leaves the client as it was, so
  that every later operation behaves as if the second call had not been made.
\<close>

theorem addHost_single_host:
  "(host c = None \<longrightarrow> addHost n c = (Inr (), c\<lparr>host := Some \<lparr>net = n\<rparr>\<rparr>)) \<and>
   (host c \<noteq> None \<longrightarrow>
      addHost n c = (Inl (BackupRPCException ''Only one backup host currently supported''), c)) \<and>
   addHost n1 MultiBackupClient_new = (Inr (), \<lparr>host = Some \<lparr>net = n1\<rparr>\<rparr>) \<and>
   addHost n2 (snd (addHost n1 MultiBackupClient_new)) =
     (Inl (BackupRPCException ''Only one backup host currently supported''),
      \<lparr>host = Some \<lparr>net = n1\<rparr>\<rparr>) \<and>
   MultiBackupClient_heartbeat K (snd (addHost n2 (snd (addHost n1 MultiBackupClient_new)))) =
     MultiBackupClient_heartbeat K (snd (addHost n1 MultiBackupClient_new))"
  by (auto simp: addHost_def MultiBackupClient_new_def split: option.splits)

theorem addHost_single_host_witness:
  "host (snd (addHost \<lparr>sent = [], inbox = []\<rparr> MultiBackupClient_new)) \<noteq> None \<and>
   addHost \<lparr>sent = [], inbox = [(8, \<lparr>hdr_type = BACKUP_RPC_HEARTBEAT_RESP, hdr_len = 8,
                                      body = plain_resp\<rparr>)]\<rparr>
       (snd (addHost \<lparr>sent = [], inbox = []\<rparr> MultiBackupClient_new)) =
     (Inl (BackupRPCException ''Only one backup host currently supported''),
      snd (addHost \<lparr>sent = [], inbox = []\<rparr> MultiBackupClient_new))"
proof -
  let ?c = "snd (addHost \<lparr>sent = [], inbox = []\<rparr> MultiBackupClient_new)"
  have a: "host ?c \<noteq> None" by (simp add: addHost_def MultiBackupClient_new_def)
  note t = addHost_single_host [where c = ?c, THEN conjunct2, THEN conjunct1, THEN mp, OF a]
  from a t show ?thesis by (intro conjI)
qed

text \<open>
  Claim C10. Whatever the operation, when the response is an error response (with a
  consistent length) whose message field holds the text \<open>m\<close>, free of zero bytes,
  followed by its terminating zero byte, the call throws \<^verbatim>\<open>BackupRPCException\<close>
  with exactly \<open>m\<close>, and the caller's buffer is as before.
\<close>

theorem remote_error_is_raised:
  assumes "inbox (net h) = (l, r) # rest" and "l = unat (hdr_len r)"
    and "hdr_type r = BACKUP_RPC_ERROR_RESP"
    and "body r = error_resp (m @ CHR 0x00 # junk)" and "CHR 0x00 \<notin> set m"
  shows "fst (heartbeat K h) = Inl (BackupRPCException m) \<and>
    (BACKUP_RPC_WRITE_REQ_LEN_WODATA K + unat len \<le> MAX_RPC_LEN K \<and> unat len \<le> length dat
       \<longrightarrow> fst (writeSegment K segNum offset dat len h) = Inl (BackupRPCException m)) \<and>
    fst (commitSegment K segNum h) = Inl (BackupRPCException m) \<and>
    fst (freeSegment K segNum h) = Inl (BackupRPCException m) \<and>
    fst (getSegmentList K ids maxSize h) = Inl (BackupRPCException m) \<and>
    fst (snd (getSegmentList K ids maxSize h)) = ids \<and>
    fst (getSegmentMetadata K segNum metas maxSize h) = Inl (BackupRPCException m) \<and>
    fst (snd (getSegmentMetadata K segNum metas maxSize h)) = metas \<and>
    fst (retrieveSegment K segNum buf h) = Inl (BackupRPCException m) \<and>
    fst (snd (retrieveSegment K segNum buf h)) = buf"
proof -
  note d = recv_error [OF assms]
  show ?thesis
    using d getSegmentList_fail [OF d] getSegmentMetadata_fail [OF d] retrieveSegment_fail [OF d]
    by (simp add: heartbeat_def commitSegment_def freeSegment_def write_fits call_plain_fst)
qed

theorem remote_error_is_raised_witness:
  "inbox (net (host_with 24 \<lparr>hdr_type = BACKUP_RPC_ERROR_RESP, hdr_len = 24,
                             body = error_resp (''no such segment'' @ [CHR 0x00])\<rparr>)) =
     [(24, \<lparr>hdr_type = BACKUP_RPC_ERROR_RESP, hdr_len = 24,
           body = error_resp (''no such segment'' @ [CHR 0x00])\<rparr>)] \<and>
   24 = unat (24 :: u32) \<and>
   CHR 0x00 \<notin> set ''no such segment'' \<and>
   fst (commitSegment wire0 9 (host_with 24 \<lparr>hdr_type = BACKUP_RPC_ERROR_RESP, hdr_len = 24,
                             body = error_resp (''no such segment'' @ [CHR 0x00])\<rparr>))
     = Inl (BackupRPCException ''no such segment'') \<and>
   fst (retrieveSegment wire0 9 [1, 2]
          (host_with 24 \<lparr>hdr_type = BACKUP_RPC_ERROR_RESP, hdr_len = 24,
                             body = error_resp (''no such segment'' @ [CHR 0x00])\<rparr>))
     = Inl (BackupRPCException ''no such segment'') \<and>
   fst (snd (retrieveSegment wire0 9 [1, 2]
          (host_with 24 \<lparr>hdr_type = BACKUP_RPC_ERROR_RESP, hdr_len = 24,
                             body = error_resp (''no such segment'' @ [CHR 0x00])\<rparr>))) = [1, 2]"
proof -
  let ?r = "\<lparr>hdr_type = BACKUP_RPC_ERROR_RESP, hdr_len = 24,
            body = error_resp (''no such segment'' @ [CHR 0x00])\<rparr>"
  have i: "inbox (net (host_with 24 ?r)) = [(24, ?r)]" by (simp add: host_with_def)
  have n: "24 = unat (hdr_len ?r)" by simp
  have n': "24 = unat (24 :: u32)" by simp
  have t: "hdr_type ?r = BACKUP_RPC_ERROR_RESP" by simp
  have b: "body ?r = error_resp (''no such segment'' @ CHR 0x00 # [])" by simp
  have z: "CHR 0x00 \<notin> set ''no such segment''" by simp
  note e = remote_error_is_raised [OF i n t b z, where K = wire0 and segNum = 9
      and buf = "[1, 2]" and len = 0 and dat = "[]" and offset = 0 and ids = "[]"
      and maxSize = 0 and metas = "[]"]
  have x: "fst (commitSegment wire0 9 (host_with 24 ?r))
       = Inl (BackupRPCException ''no such segment'')"
    using e by (elim conjE)
  have y: "fst (retrieveSegment wire0 9 [1, 2] (host_with 24 ?r))
       = Inl (BackupRPCException ''no such segment'')"
    using e by (elim conjE)
  have w: "fst (snd (retrieveSegment wire0 9 [1, 2] (host_with 24 ?r))) = [1, 2]"
    using e by (elim conjE)
  from i n' z x y w show ?thesis by (intro conjI)
qed

end
